theory Spec2Isabelle
  imports Complex_Main
begin

section \<open>Data model\<close>

text \<open>
  The embedded class is \<^verbatim>\<open>TextArranger\<close> in its version with insert and delete
  (\<^verbatim>\<open>src/unnamed/part_001\<close>). A line is the object \<^verbatim>\<open>{lineNumber, text}\<close>; the field
  \<^verbatim>\<open>text\<close> is called \<open>line_text\<close> here. A document is \<^verbatim>\<open>this.data\<close>: the object may
  be absent (\<open>None\<close>) and may lack its \<^verbatim>\<open>lines\<close> field (\<open>lines = None\<close>); an empty
  array is a present field.
\<close>

record line =
  lineNumber :: int
  line_text :: string

record document =
  lines :: "line list option"

text \<open>
  The view is the container's child list. A row is a \<^verbatim>\<open>.list-group-item\<close>: its
  \<^verbatim>\<open>dataset.lineNumber\<close>, its checkbox (\<open>None\<close> when the row has no
  \<^verbatim>\<open>input[type="checkbox"]\<close>), the text content of its \<^verbatim>\<open>.col[contenteditable="true"]\<close>
  (\<open>None\<close> when the row has no such element), the class \<^verbatim>\<open>dragging\<close>, and the buttons
  of its delete column, each closing over the index of the render loop. A divider
  closes over the index it passes to \<^verbatim>\<open>addLine\<close>.
\<close>

datatype delete_control = DeleteButton nat | ConfirmCancel nat

record row =
  dataset_lineNumber :: int
  checkbox :: "bool option"
  colText :: "string option"
  dragging :: bool
  colDelete :: delete_control

datatype node = Divider nat | Item row

text \<open>
  The output text area holds what \<^verbatim>\<open>JSON.stringify({'lines': lines}, null, 4)\<close> was
  given; \<open>Untouched\<close> is the value it had before the first write.
\<close>

datatype textarea_value = Untouched | Stringified "line list"

record arranger =
  data :: "document option"
  container :: "node list option"
  outputArea :: "textarea_value option"
  pendingDeleteIndex :: "int option"
  console :: "string list"

text \<open>A handler that throws is the value \<open>Inl TypeError\<close>.\<close>

datatype error = TypeError

definition andThen :: "error + 'a \<Rightarrow> ('a \<Rightarrow> error + 'b) \<Rightarrow> error + 'b" where
  "andThen r f = (case r of Inl e \<Rightarrow> Inl e | Inr x \<Rightarrow> f x)"

definition TextArranger ::
  "document option \<Rightarrow> node list option \<Rightarrow> textarea_value option \<Rightarrow> arranger" where
  "TextArranger d c out =
     \<lparr>data = d, container = c, outputArea = out, pendingDeleteIndex = None, console = []\<rparr>"

section \<open>Reading the view\<close>

text \<open>\<^verbatim>\<open>container.querySelectorAll('.list-group-item')\<close>, in document order.\<close>

fun queryRows :: "node list \<Rightarrow> row list" where
  "queryRows [] = []"
| "queryRows (Divider d # ns) = queryRows ns"
| "queryRows (Item r # ns) = r # queryRows ns"

text \<open>
  The loop shared by \<^verbatim>\<open>syncDataFromDOM\<close>, the \<^verbatim>\<open>dragend\<close> handler and
  \<^verbatim>\<open>updateJsonOutput\<close>: a row with an editable element pushes
  \<^verbatim>\<open>{lineNumber: index + 1, text: colText.textContent}\<close>, a row without one pushes
  nothing; \<open>index\<close> counts every row.
\<close>

fun collectLines :: "nat \<Rightarrow> row list \<Rightarrow> line list" where
  "collectLines index [] = []"
| "collectLines index (r # rs) =
     (case colText r of
        None \<Rightarrow> collectLines (Suc index) rs
      | Some t \<Rightarrow> \<lparr>lineNumber = int index + 1, line_text = t\<rparr> # collectLines (Suc index) rs)"

text \<open>Applying a change to every row, the row's position among the rows at hand.\<close>

fun mapRows :: "(nat \<Rightarrow> row \<Rightarrow> row) \<Rightarrow> nat \<Rightarrow> node list \<Rightarrow> node list" where
  "mapRows f i [] = []"
| "mapRows f i (Divider d # ns) = Divider d # mapRows f i ns"
| "mapRows f i (Item r # ns) = Item (f i r) # mapRows f (Suc i) ns"

definition isChecked :: "row \<Rightarrow> bool" where
  "isChecked r = (checkbox r = Some True)"

definition uncheck :: "row \<Rightarrow> row" where
  "uncheck r = r\<lparr>checkbox := map_option (\<lambda>_. False) (checkbox r)\<rparr>"

section \<open>The line list\<close>

text \<open>
  \<^verbatim>\<open>Array.prototype.splice(index, ...)\<close> on an array of \<open>len\<close> elements starts at
  \<open>max (len + index) 0\<close> for a negative index and at \<open>min index len\<close> otherwise.
\<close>

definition splice_start :: "nat \<Rightarrow> int \<Rightarrow> nat" where
  "splice_start len index =
     (if index < 0 then nat (max (int len + index) 0) else min (nat index) len)"

definition splice_insert :: "int \<Rightarrow> 'a \<Rightarrow> 'a list \<Rightarrow> 'a list" where
  "splice_insert index x xs =
     (let k = splice_start (length xs) index in take k xs @ [x] @ drop k xs)"

definition splice_delete :: "int \<Rightarrow> 'a list \<Rightarrow> 'a list" where
  "splice_delete index xs =
     (let k = splice_start (length xs) index in take k xs @ drop (Suc k) xs)"

text \<open>\<^verbatim>\<open>lines.forEach((line, i) => { line.lineNumber = i + 1; })\<close>\<close>

definition resequence :: "line list \<Rightarrow> line list" where
  "resequence ls = map (\<lambda>(i, l). l\<lparr>lineNumber := int i + 1\<rparr>) (enumerate 0 ls)"

definition newLine :: line where
  "newLine = \<lparr>lineNumber = 0, line_text = ''''\<rparr>"

section \<open>Rendering\<close>

definition renderRow :: "int option \<Rightarrow> nat \<Rightarrow> line \<Rightarrow> row" where
  "renderRow pending index item =
     \<lparr>dataset_lineNumber = lineNumber item,
      checkbox = Some False,
      colText = Some (line_text item),
      dragging = False,
      colDelete = (if pending = Some (int index)
                   then ConfirmCancel index else DeleteButton index)\<rparr>"

text \<open>One turn of the loop of \<^verbatim>\<open>render\<close>: the row, then the divider after it.\<close>

definition renderItem :: "int option \<Rightarrow> nat \<times> line \<Rightarrow> node list" where
  "renderItem pending p =
     (case p of (index, item) \<Rightarrow> [Item (renderRow pending index item), Divider (index + 1)])"

definition renderView :: "int option \<Rightarrow> line list \<Rightarrow> node list" where
  "renderView pending ls = Divider 0 # concat (map (renderItem pending) (enumerate 0 ls))"

text \<open>
  \<^verbatim>\<open>render\<close> empties the container before it looks at the data; with the data or its
  \<^verbatim>\<open>lines\<close> missing it logs and returns.
\<close>

definition render :: "arranger \<Rightarrow> error + arranger" where
  "render s =
     (case container s of
        None \<Rightarrow> Inl TypeError
      | Some _ \<Rightarrow>
          (let cleared = s\<lparr>container := Some []\<rparr>;
               invalid = cleared\<lparr>console := console s @ [''Invalid data format'']\<rparr>
           in case data s of
                None \<Rightarrow> Inr invalid
              | Some d \<Rightarrow>
                  (case lines d of
                     None \<Rightarrow> Inr invalid
                   | Some ls \<Rightarrow>
                       Inr (s\<lparr>container := Some (renderView (pendingDeleteIndex s) ls)\<rparr>))))"

definition updateJsonOutput :: "arranger \<Rightarrow> error + arranger" where
  "updateJsonOutput s =
     (case outputArea s of
        None \<Rightarrow> Inr s
      | Some _ \<Rightarrow>
          (case container s of
             None \<Rightarrow> Inl TypeError
           | Some ns \<Rightarrow>
               Inr (s\<lparr>outputArea := Some (Stringified (collectLines 0 (queryRows ns)))\<rparr>)))"

section \<open>Flush, insert, delete, confirm and cancel\<close>

text \<open>
  \<^verbatim>\<open>if (lines.length > 0 || this.data.lines.length === 0) this.data.lines = lines;\<close>
  The right operand is evaluated only when no line was collected; reading a field of
  a missing object throws, assigning \<^verbatim>\<open>lines\<close> to a present object does not.
\<close>

definition syncDataFromDOM :: "arranger \<Rightarrow> error + arranger" where
  "syncDataFromDOM s =
     (case container s of
        None \<Rightarrow> Inr s
      | Some ns \<Rightarrow>
          (let ls = collectLines 0 (queryRows ns) in
           case data s of
             None \<Rightarrow> Inl TypeError
           | Some d \<Rightarrow>
               if length ls > 0 then Inr (s\<lparr>data := Some (d\<lparr>lines := Some ls\<rparr>)\<rparr>)
               else (case lines d of
                       None \<Rightarrow> Inl TypeError
                     | Some old \<Rightarrow>
                         if length old = 0 then Inr (s\<lparr>data := Some (d\<lparr>lines := Some ls\<rparr>)\<rparr>)
                         else Inr s)))"

text \<open>A step on \<^verbatim>\<open>this.data.lines\<close>; it throws when the array is not there.\<close>

definition onLines :: "(line list \<Rightarrow> line list) \<Rightarrow> arranger \<Rightarrow> error + arranger" where
  "onLines f s =
     (case data s of
        None \<Rightarrow> Inl TypeError
      | Some d \<Rightarrow>
          (case lines d of
             None \<Rightarrow> Inl TypeError
           | Some ls \<Rightarrow> Inr (s\<lparr>data := Some (d\<lparr>lines := Some (f ls)\<rparr>)\<rparr>)))"

definition addLine :: "int \<Rightarrow> arranger \<Rightarrow> error + arranger" where
  "addLine index s =
     andThen (syncDataFromDOM s) (\<lambda>s1.
     andThen (onLines (\<lambda>ls. resequence (splice_insert index newLine ls)) s1) render)"

definition deleteLine :: "int \<Rightarrow> arranger \<Rightarrow> error + arranger" where
  "deleteLine index s =
     andThen (syncDataFromDOM s) (\<lambda>s1.
     andThen (onLines (\<lambda>ls. resequence (splice_delete index ls)) s1) (\<lambda>s2.
     andThen (render (s2\<lparr>pendingDeleteIndex := None\<rparr>)) updateJsonOutput))"

definition requestDelete :: "int \<Rightarrow> arranger \<Rightarrow> error + arranger" where
  "requestDelete index s =
     andThen (syncDataFromDOM s) (\<lambda>s1. render (s1\<lparr>pendingDeleteIndex := Some index\<rparr>))"

definition cancelDelete :: "arranger \<Rightarrow> error + arranger" where
  "cancelDelete s =
     andThen (syncDataFromDOM s) (\<lambda>s1. render (s1\<lparr>pendingDeleteIndex := None\<rparr>))"

text \<open>
  The confirm and cancel buttons exist only in the row whose delete column shows them;
  pressing one runs its closure, \<^verbatim>\<open>this.deleteLine(index)\<close> or \<^verbatim>\<open>this.cancelDelete()\<close>.
  With no such button in the view there is nothing to press.
\<close>

fun confirmButton :: "row list \<Rightarrow> nat option" where
  "confirmButton [] = None"
| "confirmButton (r # rs) =
     (case colDelete r of ConfirmCancel index \<Rightarrow> Some index | DeleteButton _ \<Rightarrow> confirmButton rs)"

definition viewRows :: "arranger \<Rightarrow> row list" where
  "viewRows s = (case container s of None \<Rightarrow> [] | Some ns \<Rightarrow> queryRows ns)"

definition confirm :: "arranger \<Rightarrow> error + arranger" where
  "confirm s =
     (case confirmButton (viewRows s) of
        None \<Rightarrow> Inr s
      | Some index \<Rightarrow> deleteLine (int index) s)"

definition cancel :: "arranger \<Rightarrow> error + arranger" where
  "cancel s =
     (case confirmButton (viewRows s) of
        None \<Rightarrow> Inr s
      | Some _ \<Rightarrow> cancelDelete s)"

definition the_lines :: "arranger \<Rightarrow> line list option" where
  "the_lines s = (case data s of None \<Rightarrow> None | Some d \<Rightarrow> lines d)"

section \<open>Selection\<close>

text \<open>
  \<^verbatim>\<open>handleToggle(changedCheckbox, changedRow)\<close>; \<open>index\<close> is
  \<^verbatim>\<open>allRows.indexOf(changedRow)\<close>, the position of the row whose checkbox changed.
\<close>

definition handleToggle :: "nat \<Rightarrow> node list \<Rightarrow> node list" where
  "handleToggle index ns =
     (let allRows = queryRows ns in
      if \<not> isChecked (allRows ! index) then ns
      else
        let prevChecked = (index > 0 \<and> isChecked (allRows ! (index - 1)));
            nextChecked = (index + 1 < length allRows \<and> isChecked (allRows ! (index + 1)))
        in if \<not> prevChecked \<and> \<not> nextChecked
           then mapRows (\<lambda>i r. if i \<noteq> index then uncheck r else r) 0 ns
           else ns)"

text \<open>
  The \<^verbatim>\<open>change\<close> event of the checkbox of row \<open>index\<close>: the browser flips the box, then
  the listener runs \<^verbatim>\<open>handleToggle\<close>. A row that is not in the view, or has no checkbox,
  raises no such event.
\<close>

definition flipCheckbox :: "nat \<Rightarrow> node list \<Rightarrow> node list" where
  "flipCheckbox index ns =
     mapRows (\<lambda>i r. if i = index then r\<lparr>checkbox := map_option Not (checkbox r)\<rparr> else r) 0 ns"

definition toggle :: "nat \<Rightarrow> node list \<Rightarrow> node list" where
  "toggle index ns =
     (if index < length (queryRows ns) \<and> checkbox (queryRows ns ! index) \<noteq> None
      then handleToggle index (flipCheckbox index ns)
      else ns)"

definition toggles :: "nat list \<Rightarrow> node list \<Rightarrow> node list" where
  "toggles ks ns = foldl (\<lambda>n k. toggle k n) ns ks"

definition marks :: "node list \<Rightarrow> bool list" where
  "marks ns = map isChecked (queryRows ns)"

text \<open>
  One contiguous run (or nothing marked): after the leading unmarked rows and the
  marked rows that follow them, no row is marked.
\<close>

definition contiguous :: "bool list \<Rightarrow> bool" where
  "contiguous bs = list_all Not (dropWhile (\<lambda>b. b) (dropWhile Not bs))"

text \<open>Every event of the sequence turns on a box that is in the view and is off.\<close>

fun toggleOnEvents :: "nat list \<Rightarrow> node list \<Rightarrow> bool" where
  "toggleOnEvents [] ns = True"
| "toggleOnEvents (k # ks) ns =
     (k < length (queryRows ns) \<and> checkbox (queryRows ns ! k) = Some False \<and>
      toggleOnEvents ks (toggle k ns))"

section \<open>Numbers\<close>

text \<open>
  A JavaScript number is an IEEE 754 double: a finite value, kept here as the rational
  it is, plus or minus infinity, or NaN. The two zeros are one value; no operation used
  here tells them apart. \<open>fl\<close> rounds a rational to the nearest double, ties to the even
  significand: 53 bits of significand, the unit in the last place no smaller than
  \<open>2 ^ - 1074\<close> (subnormal numbers), and infinity when the rounded magnitude reaches
  \<open>2 ^ 1024\<close>, that is when its binary exponent is 1024 or more.
\<close>

datatype number = Finite rat | PosInf | NegInf | NaN

text \<open>The number of binary digits of a positive integer.\<close>

function bitLength :: "int \<Rightarrow> int" where
  "bitLength n = (if n \<le> 0 then 0 else 1 + bitLength (n div 2))"
  by pat_completeness auto
termination
  by (relation "measure nat") auto

declare bitLength.simps [simp del]

text \<open>The exponent \<open>e\<close> with \<open>2 ^ e \<le> a < 2 ^ (e + 1)\<close>, for a positive rational.\<close>

definition binaryExponent :: "rat \<Rightarrow> int" where
  "binaryExponent a =
     (case quotient_of a of (p, q) \<Rightarrow>
        let e0 = bitLength p - bitLength q
        in if 2 powi e0 \<le> a then e0 else e0 - 1)"

definition roundTiesToEven :: "rat \<Rightarrow> int" where
  "roundTiesToEven m =
     (let f = \<lfloor>m\<rfloor>; r = m - of_int f
      in if r < 1 / 2 then f else if 1 / 2 < r then f + 1 else if even f then f else f + 1)"

definition fl :: "rat \<Rightarrow> number" where
  "fl x =
     (if x = 0 then Finite 0
      else
        let a = \<bar>x\<bar>;
            e = max (binaryExponent a) (- 1022);
            ulp = 2 powi (e - 52);
            v = of_int (roundTiesToEven (a / ulp)) * ulp
        in if 1024 \<le> binaryExponent v then (if x < 0 then NegInf else PosInf)
           else Finite (if x < 0 then - v else v))"

text \<open>The operators \<^verbatim>\<open>a - b\<close>, \<^verbatim>\<open>a / 2\<close>, \<^verbatim>\<open>a < b\<close> and \<^verbatim>\<open>a > b\<close> on numbers.\<close>

fun subtract :: "number \<Rightarrow> number \<Rightarrow> number" where
  "subtract (Finite a) (Finite b) = fl (a - b)"
| "subtract NaN b = NaN"
| "subtract a NaN = NaN"
| "subtract PosInf PosInf = NaN"
| "subtract NegInf NegInf = NaN"
| "subtract PosInf b = PosInf"
| "subtract NegInf b = NegInf"
| "subtract (Finite a) PosInf = NegInf"
| "subtract (Finite a) NegInf = PosInf"

fun halve :: "number \<Rightarrow> number" where
  "halve (Finite a) = fl (a / 2)"
| "halve a = a"

fun numberLess :: "number \<Rightarrow> number \<Rightarrow> bool" where
  "numberLess (Finite a) (Finite b) = (a < b)"
| "numberLess NegInf (Finite b) = True"
| "numberLess NegInf PosInf = True"
| "numberLess (Finite a) PosInf = True"
| "numberLess a b = False"

definition numberGreater :: "number \<Rightarrow> number \<Rightarrow> bool" where
  "numberGreater a b = numberLess b a"

section \<open>Dragging\<close>

text \<open>The \<^verbatim>\<open>dragstart\<close> listener of row \<open>index\<close>.\<close>

definition dragstart :: "nat \<Rightarrow> node list \<Rightarrow> error + node list" where
  "dragstart index ns =
     (let allRows = queryRows ns in
      if index < length allRows then
        (case checkbox (allRows ! index) of
           None \<Rightarrow> Inl TypeError
         | Some checked \<Rightarrow>
             if checked
             then Inr (mapRows (\<lambda>i r. if isChecked r then r\<lparr>dragging := True\<rparr> else r) 0 ns)
             else Inr (mapRows (\<lambda>i r. if i = index then r\<lparr>dragging := True\<rparr> else r) 0 ns))
      else Inr ns)"

text \<open>
  \<^verbatim>\<open>getBoundingClientRect()\<close> of a row: its top edge and its height, both numbers.
\<close>

record box =
  box_top :: number
  box_height :: number

text \<open>\<^verbatim>\<open>y - box.top - box.height / 2\<close>, each operation rounded.\<close>

definition offsetOf :: "number \<Rightarrow> box \<Rightarrow> number" where
  "offsetOf y b = subtract (subtract y (box_top b)) (halve (box_height b))"

text \<open>
  The callback of the \<^verbatim>\<open>reduce\<close>; the accumulator is \<^verbatim>\<open>{offset, element}\<close> and starts
  as \<^verbatim>\<open>{offset: Number.NEGATIVE_INFINITY}\<close> with no element.
\<close>

definition closer :: "number \<Rightarrow> number \<times> 'e option \<Rightarrow> 'e \<times> box \<Rightarrow> number \<times> 'e option" where
  "closer y closest cb =
     (case cb of (child, b) \<Rightarrow>
        let offset = offsetOf y b in
        if numberLess offset (Finite 0) \<and> numberGreater offset (fst closest)
        then (offset, Some child)
        else closest)"

definition getDragAfterElement :: "number \<Rightarrow> ('e \<times> box) list \<Rightarrow> 'e option" where
  "getDragAfterElement y draggableElements =
     snd (foldl (closer y) (NegInf, None) draggableElements)"

text \<open>
  The rows matching \<^verbatim>\<open>.list-group-item:not(.dragging)\<close>, each named by its position among
  all rows and paired with the rectangle the browser reports for it.
\<close>

definition draggableElements :: "(nat \<Rightarrow> box) \<Rightarrow> node list \<Rightarrow> (nat \<times> box) list" where
  "draggableElements rect ns =
     map (\<lambda>(i, r). (i, rect i)) (filter (\<lambda>(i, r). \<not> dragging r) (enumerate 0 (queryRows ns)))"

definition isDragging :: "node \<Rightarrow> bool" where
  "isDragging n = (case n of Divider _ \<Rightarrow> False | Item r \<Rightarrow> dragging r)"

text \<open>
  \<^verbatim>\<open>container.insertBefore(draggable, afterElement)\<close> for each dragged row in turn: the
  dragged rows leave their places and stand, in their order, right before the anchor,
  which is the row at position \<open>anchor\<close> of the rows before the move.
\<close>

fun insertBefore :: "node list \<Rightarrow> nat \<Rightarrow> nat \<Rightarrow> node list \<Rightarrow> node list" where
  "insertBefore ds anchor i [] = []"
| "insertBefore ds anchor i (Divider d # ns) = Divider d # insertBefore ds anchor i ns"
| "insertBefore ds anchor i (Item r # ns) =
     (if dragging r then insertBefore ds anchor (Suc i) ns
      else if i = anchor then ds @ Item r # insertBefore ds anchor (Suc i) ns
      else Item r # insertBefore ds anchor (Suc i) ns)"

definition handleDragOver :: "number \<Rightarrow> (nat \<Rightarrow> box) \<Rightarrow> node list \<Rightarrow> node list" where
  "handleDragOver clientY rect ns =
     (let afterElement = getDragAfterElement clientY (draggableElements rect ns);
          draggables = filter isDragging ns
      in if length draggables > 0 then
           (case afterElement of
              None \<Rightarrow> filter (\<lambda>n. \<not> isDragging n) ns @ draggables
            | Some anchor \<Rightarrow> insertBefore draggables anchor 0 ns)
         else ns)"

text \<open>
  The \<^verbatim>\<open>dragend\<close> listener: the class \<^verbatim>\<open>dragging\<close> is removed, every checkbox is
  unchecked, the line list is rebuilt from the rows in their present order, then
  \<^verbatim>\<open>render\<close> and \<^verbatim>\<open>updateJsonOutput\<close>.
\<close>

definition dragend :: "arranger \<Rightarrow> error + arranger" where
  "dragend s =
     (case container s of
        None \<Rightarrow> Inl TypeError
      | Some ns \<Rightarrow>
          (let ns' = mapRows (\<lambda>i r. uncheck (r\<lparr>dragging := False\<rparr>)) 0 ns;
               newLines = collectLines 0 (queryRows ns')
           in case data s of
                None \<Rightarrow> Inl TypeError
              | Some d \<Rightarrow>
                  andThen (render (s\<lparr>container := Some ns',
                                     data := Some (d\<lparr>lines := Some newLines\<rparr>)\<rparr>))
                          updateJsonOutput))"

section \<open>The component as a state machine\<close>

text \<open>
  The user types in the editable element of row \<open>index\<close>; the \<^verbatim>\<open>keyup\<close> listener runs
  \<^verbatim>\<open>updateJsonOutput\<close>. The model is not written.
\<close>

definition textEdit :: "nat \<Rightarrow> string \<Rightarrow> arranger \<Rightarrow> error + arranger" where
  "textEdit index t s =
     (case container s of
        None \<Rightarrow> Inr s
      | Some ns \<Rightarrow>
          if index < length (queryRows ns) \<and> colText (queryRows ns ! index) \<noteq> None
          then updateJsonOutput
                 (s\<lparr>container :=
                      Some (mapRows (\<lambda>i r. if i = index then r\<lparr>colText := Some t\<rparr> else r) 0 ns)\<rparr>)
          else Inr s)"

text \<open>
  The events are the public methods and the listeners that \<^verbatim>\<open>render\<close> installs. A
  listener of a row exists only while the row is in the container, so an event aimed at
  a position with no row, and any listener event without a container, does nothing.
  The layout that the browser reports during a drag comes with the \<open>DragOver\<close> event.
\<close>

datatype event =
    AddLine int
  | DeleteLine int
  | RequestDelete int
  | CancelDelete
  | Render
  | TextEdit nat string
  | Toggle nat
  | DragStart nat
  | DragOver number "nat \<Rightarrow> box"
  | DragEnd

definition onContainer :: "(node list \<Rightarrow> error + node list) \<Rightarrow> arranger \<Rightarrow> error + arranger" where
  "onContainer f s =
     (case container s of
        None \<Rightarrow> Inr s
      | Some ns \<Rightarrow> andThen (f ns) (\<lambda>ns'. Inr (s\<lparr>container := Some ns'\<rparr>)))"

fun step :: "arranger \<Rightarrow> event \<Rightarrow> error + arranger" where
  "step s (AddLine index) = addLine index s"
| "step s (DeleteLine index) = deleteLine index s"
| "step s (RequestDelete index) = requestDelete index s"
| "step s CancelDelete = cancelDelete s"
| "step s Render = render s"
| "step s (TextEdit index t) = textEdit index t s"
| "step s (Toggle index) = onContainer (\<lambda>ns. Inr (toggle index ns)) s"
| "step s (DragStart index) = onContainer (dragstart index) s"
| "step s (DragOver clientY rect) = onContainer (\<lambda>ns. Inr (handleDragOver clientY rect ns)) s"
| "step s DragEnd = (case container s of None \<Rightarrow> Inr s | Some _ \<Rightarrow> dragend s)"

fun run :: "arranger \<Rightarrow> event list \<Rightarrow> error + arranger" where
  "run s [] = Inr s"
| "run s (e # es) = (case step s e of Inl x \<Rightarrow> Inl x | Inr s' \<Rightarrow> run s' es)"

text \<open>The operations that change the structure of the line list.\<close>

fun structural :: "event \<Rightarrow> bool" where
  "structural (AddLine _) = True"
| "structural (DeleteLine _) = True"
| "structural DragEnd = True"
| "structural _ = False"

text \<open>\<^verbatim>\<open>lineNumber\<close> equals position + 1 for every line: the numbers are \<open>1..N\<close> in order.\<close>

definition numbered :: "line list \<Rightarrow> bool" where
  "numbered ls = (map lineNumber ls = map (\<lambda>i. int i + 1) [0..<length ls])"

section \<open>Predicates of the specification\<close>

text \<open>
  A row as \<^verbatim>\<open>render\<close> builds it has its editable element and its checkbox. A state is
  well formed when the container is there, every row of it is complete, and the data
  holds a line list.
\<close>

definition rowComplete :: "row \<Rightarrow> bool" where
  "rowComplete r = (colText r \<noteq> None \<and> checkbox r \<noteq> None)"

definition rowsComplete :: "node list \<Rightarrow> bool" where
  "rowsComplete ns = list_all rowComplete (queryRows ns)"

definition wellFormed :: "arranger \<Rightarrow> bool" where
  "wellFormed s =
     ((case container s of None \<Rightarrow> False | Some ns \<Rightarrow> rowsComplete ns) \<and> the_lines s \<noteq> None)"

text \<open>The model is settled when its lines are numbered \<open>1..N\<close>.\<close>

definition settled :: "arranger \<Rightarrow> bool" where
  "settled s = (case the_lines s of None \<Rightarrow> False | Some ls \<Rightarrow> numbered ls)"

text \<open>
  The document is \<open>ls\<close> and the view shows it: one row per line, in order, each with the
  text of its line in its editable element. This is what \<^verbatim>\<open>render\<close> leaves; text typed
  since then breaks it.
\<close>

definition shown :: "arranger \<Rightarrow> line list \<Rightarrow> bool" where
  "shown s ls =
     (the_lines s = Some ls \<and>
      (case container s of
         None \<Rightarrow> False
       | Some ns \<Rightarrow> map colText (queryRows ns) = map (\<lambda>l. Some (line_text l)) ls))"

text \<open>
  Contiguity by positions: between two marked positions every position is marked.
  \<open>downClosed\<close> is the same for a list that starts with a marked position.
\<close>

definition interval :: "bool list \<Rightarrow> bool" where
  "interval bs = (\<forall>i j m. i \<le> m \<and> m \<le> j \<and> j < length bs \<and> bs ! i \<and> bs ! j \<longrightarrow> bs ! m)"

definition downClosed :: "bool list \<Rightarrow> bool" where
  "downClosed bs = (\<forall>j m. m \<le> j \<and> j < length bs \<and> bs ! j \<longrightarrow> bs ! m)"

section \<open>Example views and documents\<close>

definition view4 :: "node list" where
  "view4 = renderView None
     [\<lparr>lineNumber = 1, line_text = ''W''\<rparr>, \<lparr>lineNumber = 2, line_text = ''X''\<rparr>,
      \<lparr>lineNumber = 3, line_text = ''Y''\<rparr>, \<lparr>lineNumber = 4, line_text = ''Z''\<rparr>]"






definition lines_ABC :: "line list" where
  "lines_ABC = [\<lparr>lineNumber = 1, line_text = ''A''\<rparr>,
                \<lparr>lineNumber = 2, line_text = ''B''\<rparr>,
                \<lparr>lineNumber = 3, line_text = ''C''\<rparr>]"

definition doc_ABC :: document where
  "doc_ABC = \<lparr>lines = Some lines_ABC\<rparr>"

definition doc_unnumbered :: document where
  "doc_unnumbered = \<lparr>lines = Some [\<lparr>lineNumber = 5, line_text = ''A''\<rparr>]\<rparr>"

text \<open>The component constructed on a document and an empty container, then rendered.\<close>

definition rendered :: "document \<Rightarrow> error + arranger" where
  "rendered d = render (TextArranger (Some d) (Some []) None)"

definition linesOf :: "error + arranger \<Rightarrow> line list option" where
  "linesOf r = (case r of Inl _ \<Rightarrow> None | Inr s \<Rightarrow> the_lines s)"

definition pendingOf :: "error + arranger \<Rightarrow> int option option" where
  "pendingOf r = (case r of Inl _ \<Rightarrow> None | Inr s \<Rightarrow> Some (pendingDeleteIndex s))"

text \<open>The state an operation returned; the freshly constructed one if it threw.\<close>

definition stateOf :: "error + arranger \<Rightarrow> arranger" where
  "stateOf r = (case r of Inl _ \<Rightarrow> TextArranger None None None | Inr s \<Rightarrow> s)"

text \<open>A view whose only row has lost its editable element, over a document of three lines.\<close>

definition arranger_stale :: arranger where
  "arranger_stale =
     TextArranger (Some doc_ABC)
       (Some [Divider 0,
              Item \<lparr>dataset_lineNumber = 1, checkbox = Some False, colText = None,
                    dragging = False, colDelete = DeleteButton 0\<rparr>,
              Divider 1])
       None"

text \<open>
  A view of three rows, the middle one without its editable element, with texts that
  differ from the document of three lines under it.
\<close>

definition arranger_mixed :: arranger where
  "arranger_mixed =
     TextArranger (Some doc_ABC)
       (Some [Divider 0,
              Item \<lparr>dataset_lineNumber = 1, checkbox = Some False, colText = Some ''Q'',
                    dragging = False, colDelete = DeleteButton 0\<rparr>,
              Divider 1,
              Item \<lparr>dataset_lineNumber = 2, checkbox = Some False, colText = None,
                    dragging = False, colDelete = DeleteButton 1\<rparr>,
              Divider 2,
              Item \<lparr>dataset_lineNumber = 3, checkbox = Some False, colText = Some ''R'',
                    dragging = False, colDelete = DeleteButton 2\<rparr>,
              Divider 3])
       None"





section \<open>Properties of the view and of the line list\<close>

text \<open>
  Rows of a rendered view, the lines collected from rows, and renumbering.
\<close>

lemma queryRows_append: "queryRows (xs @ ys) = queryRows xs @ queryRows ys"
  by (induction xs rule: queryRows.induct) simp_all

lemma queryRows_renderItems:
  "queryRows (concat (map (renderItem p) (enumerate n ls))) =
   map (\<lambda>(i, l). renderRow p i l) (enumerate n ls)"
  by (induction ls arbitrary: n) (simp_all add: renderItem_def)

lemma queryRows_renderView:
  "queryRows (renderView p ls) = map (\<lambda>(i, l). renderRow p i l) (enumerate 0 ls)"
  by (simp add: renderView_def queryRows_renderItems)

lemma queryRows_mapRows:
  "queryRows (mapRows f i ns) = map (\<lambda>(j, r). f j r) (enumerate i (queryRows ns))"
  by (induction f i ns rule: mapRows.induct) simp_all

lemma collectLines_all_text:
  "list_all (\<lambda>r. colText r \<noteq> None) rs \<Longrightarrow>
   collectLines n rs =
   map (\<lambda>(i, r). \<lparr>lineNumber = int i + 1, line_text = the (colText r)\<rparr>) (enumerate n rs)"
  by (induction rs arbitrary: n) (auto split: option.split)

lemma numbered_iff:
  "numbered ls \<longleftrightarrow> (\<forall>i < length ls. lineNumber (ls ! i) = int i + 1)"
proof
  assume "numbered ls"
  then have eq: "map lineNumber ls = map (\<lambda>i. int i + 1) [0..<length ls]"
    by (simp add: numbered_def)
  show "\<forall>i < length ls. lineNumber (ls ! i) = int i + 1"
  proof (intro allI impI)
    fix i assume i: "i < length ls"
    have "map lineNumber ls ! i = map (\<lambda>i. int i + 1) [0..<length ls] ! i"
      by (simp only: eq)
    with i show "lineNumber (ls ! i) = int i + 1" by simp
  qed
next
  assume "\<forall>i < length ls. lineNumber (ls ! i) = int i + 1"
  then show "numbered ls"
    unfolding numbered_def by (intro nth_equalityI) simp_all
qed

lemma numbered_collectLines:
  "list_all (\<lambda>r. colText r \<noteq> None) rs \<Longrightarrow> numbered (collectLines 0 rs)"
  by (simp add: collectLines_all_text numbered_iff nth_enumerate_eq)

lemma length_resequence [simp]: "length (resequence ls) = length ls"
  by (simp add: resequence_def)

lemma numbered_resequence: "numbered (resequence ls)"
  by (simp add: numbered_iff resequence_def nth_enumerate_eq)

lemma text_resequence: "map line_text (resequence ls) = map line_text ls"
  by (simp add: resequence_def list_eq_iff_nth_eq nth_enumerate_eq)

lemma resequence_numbered: "numbered ls \<Longrightarrow> resequence ls = ls"
  by (auto simp add: numbered_iff resequence_def list_eq_iff_nth_eq nth_enumerate_eq)

lemma collectLines_in_sync:
  "map colText rs = map (\<lambda>l. Some (line_text l)) ls \<Longrightarrow>
   collectLines n rs = map (\<lambda>(i, l). l\<lparr>lineNumber := int i + 1\<rparr>) (enumerate n ls)"
  by (induction rs arbitrary: n ls) auto

lemma collectLines_resequence:
  "map colText rs = map (\<lambda>l. Some (line_text l)) ls \<Longrightarrow> collectLines 0 rs = resequence ls"
  by (simp add: collectLines_in_sync resequence_def)

lemma colText_renderView:
  "map colText (queryRows (renderView p ls)) = map (\<lambda>l. Some (line_text l)) ls"
  by (simp add: queryRows_renderView list_eq_iff_nth_eq nth_enumerate_eq renderRow_def)

section \<open>The operations on a state that has its data\<close>

text \<open>
  What \<^verbatim>\<open>render\<close>, the flush and the steps on the line list return when the container and
  the line list are there, and the gestures that keep every row complete.
\<close>

lemma document_update: "(d::document)\<lparr>lines := x\<rparr> = \<lparr>lines = x\<rparr>"
  by (cases d) simp

lemma the_lines_simps [simp]:
  "the_lines (s\<lparr>container := c\<rparr>) = the_lines s"
  "the_lines (s\<lparr>pendingDeleteIndex := p\<rparr>) = the_lines s"
  "the_lines (s\<lparr>outputArea := out\<rparr>) = the_lines s"
  "the_lines (s\<lparr>console := l\<rparr>) = the_lines s"
  "the_lines (s\<lparr>data := Some d\<rparr>) = lines d"
  by (simp_all add: the_lines_def)

lemma the_lines_SomeD:
  "the_lines s = Some ls \<Longrightarrow> data s = Some \<lparr>lines = Some ls\<rparr>"
  by (cases "data s") (auto simp: the_lines_def intro: document.equality)

lemma rowsComplete_renderView: "rowsComplete (renderView p ls)"
  by (auto simp add: rowsComplete_def queryRows_renderView list_all_iff rowComplete_def
      renderRow_def)

lemma render_lines:
  "container s = Some c \<Longrightarrow> the_lines s = Some ls \<Longrightarrow>
   render s = Inr (s\<lparr>container := Some (renderView (pendingDeleteIndex s) ls)\<rparr>)"
  by (simp add: render_def the_lines_SomeD)

lemma onLines_lines:
  "the_lines s = Some ls \<Longrightarrow> onLines f s = Inr (s\<lparr>data := Some \<lparr>lines = Some (f ls)\<rparr>\<rparr>)"
  by (simp add: onLines_def the_lines_SomeD)

lemma syncDataFromDOM_lines:
  "container s = Some ns \<Longrightarrow> the_lines s = Some old \<Longrightarrow>
   syncDataFromDOM s =
   Inr (if collectLines 0 (queryRows ns) \<noteq> [] \<or> old = []
        then s\<lparr>data := Some \<lparr>lines = Some (collectLines 0 (queryRows ns))\<rparr>\<rparr> else s)"
  by (simp add: syncDataFromDOM_def the_lines_SomeD Let_def)

lemma updateJsonOutput_ok:
  "container s = Some ns \<Longrightarrow>
   \<exists>out. updateJsonOutput s = Inr (s\<lparr>outputArea := out\<rparr>)"
  by (cases "outputArea s") (auto simp: updateJsonOutput_def intro: exI[of _ None])

lemma list_all_mapRows:
  "list_all P (queryRows ns) \<Longrightarrow> (\<And>i r. P r \<Longrightarrow> P (f i r)) \<Longrightarrow>
   list_all P (queryRows (mapRows f i ns))"
  by (induction f i ns rule: mapRows.induct) simp_all

lemma rowComplete_simps [simp]:
  "rowComplete (uncheck r) = rowComplete r"
  "rowComplete (r\<lparr>dragging := b\<rparr>) = rowComplete r"
  "rowComplete (r\<lparr>checkbox := map_option g (checkbox r)\<rparr>) = rowComplete r"
  "rowComplete (r\<lparr>colText := Some t\<rparr>) = (checkbox r \<noteq> None)"
  by (simp_all add: rowComplete_def uncheck_def)

lemma rowsComplete_mapRows:
  "rowsComplete ns \<Longrightarrow> (\<And>i r. rowComplete r \<Longrightarrow> rowComplete (f i r)) \<Longrightarrow>
   rowsComplete (mapRows f i ns)"
  unfolding rowsComplete_def by (rule list_all_mapRows)

lemma rowsComplete_toggle: "rowsComplete ns \<Longrightarrow> rowsComplete (toggle k ns)"
  by (simp add: toggle_def handleToggle_def flipCheckbox_def Let_def rowsComplete_mapRows)

lemma rowsComplete_dragstart:
  "rowsComplete ns \<Longrightarrow> \<exists>ns'. dragstart k ns = Inr ns' \<and> rowsComplete ns'"
proof (cases "k < length (queryRows ns)")
  case False
  assume "rowsComplete ns"
  with False show ?thesis by (simp add: dragstart_def)
next
  case True
  assume rc: "rowsComplete ns"
  with True have "rowComplete (queryRows ns ! k)"
    by (simp add: rowsComplete_def list_all_length)
  then obtain c where "checkbox (queryRows ns ! k) = Some c"
    by (auto simp: rowComplete_def)
  with True rc show ?thesis
    by (simp add: dragstart_def Let_def rowsComplete_mapRows)
qed

lemma queryRows_filter:
  "set (queryRows (filter P ns)) \<subseteq> set (queryRows ns)"
  by (induction ns rule: queryRows.induct) auto

lemma queryRows_insertBefore:
  "set (queryRows (insertBefore ds a i ns)) \<subseteq> set (queryRows ds) \<union> set (queryRows ns)"
  by (induction ds a i ns rule: insertBefore.induct) (auto simp: queryRows_append)

lemma rowsComplete_handleDragOver:
  assumes "rowsComplete ns"
  shows "rowsComplete (handleDragOver y rect ns)"
proof -
  have "set (queryRows (handleDragOver y rect ns)) \<subseteq> set (queryRows ns)"
    using queryRows_filter[of isDragging ns] queryRows_filter[of "\<lambda>n. \<not> isDragging n" ns]
      queryRows_insertBefore[of "filter isDragging ns" _ 0 ns]
    by (auto simp: handleDragOver_def Let_def queryRows_append split: option.split)
  with assms show ?thesis
    by (auto simp: rowsComplete_def list_all_iff)
qed

section \<open>Well-formed states are closed under every event\<close>

text \<open>
  Every operation returns on a well-formed state, returns a well-formed state, and keeps
  a numbered line list numbered; the structural ones leave it numbered.
\<close>

lemma wellFormedE:
  assumes "wellFormed s"
  obtains ns ls where "container s = Some ns" "rowsComplete ns" "the_lines s = Some ls"
  using assms by (auto simp: wellFormed_def split: option.splits)

lemma rowsComplete_text:
  "rowsComplete ns \<Longrightarrow> list_all (\<lambda>r. colText r \<noteq> None) (queryRows ns)"
  by (auto simp: rowsComplete_def rowComplete_def list_all_iff)

lemma sync_wellFormed:
  assumes "wellFormed s"
  shows "\<exists>s1 ls1. syncDataFromDOM s = Inr s1 \<and> container s1 = container s \<and>
           pendingDeleteIndex s1 = pendingDeleteIndex s \<and> outputArea s1 = outputArea s \<and>
           console s1 = console s \<and>
           the_lines s1 = Some ls1 \<and> (settled s \<longrightarrow> numbered ls1)"
proof -
  from assms obtain ns ls where c: "container s = Some ns" and rc: "rowsComplete ns"
    and l: "the_lines s = Some ls" by (rule wellFormedE)
  have n: "numbered (collectLines 0 (queryRows ns))"
    by (rule numbered_collectLines[OF rowsComplete_text[OF rc]])
  show ?thesis
    using c l n by (simp add: syncDataFromDOM_lines settled_def)
qed

lemma render_wellFormed:
  assumes "container s = Some c" "the_lines s = Some ls"
  shows "\<exists>s'. render s = Inr s' \<and> wellFormed s' \<and> the_lines s' = Some ls \<and>
           pendingDeleteIndex s' = pendingDeleteIndex s \<and> console s' = console s"
  using assms by (simp add: render_lines wellFormed_def rowsComplete_renderView)

lemma updateJsonOutput_wellFormed:
  assumes "wellFormed s"
  shows "\<exists>s'. updateJsonOutput s = Inr s' \<and> wellFormed s' \<and> the_lines s' = the_lines s \<and>
           pendingDeleteIndex s' = pendingDeleteIndex s \<and> console s' = console s"
proof -
  from assms obtain ns ls where c: "container s = Some ns" by (rule wellFormedE)
  from updateJsonOutput_ok[OF c] obtain out where "updateJsonOutput s = Inr (s\<lparr>outputArea := out\<rparr>)" ..
  with assms show ?thesis by (simp add: wellFormed_def)
qed

lemma addLine_wellFormed:
  assumes "wellFormed s"
  shows "\<exists>s'. addLine index s = Inr s' \<and> wellFormed s' \<and> settled s'"
proof -
  from sync_wellFormed[OF assms] obtain s1 ls1 where
    s1: "syncDataFromDOM s = Inr s1" "container s1 = container s" "the_lines s1 = Some ls1"
    by blast
  from assms obtain ns where c: "container s = Some ns" by (rule wellFormedE)
  let ?ls = "resequence (splice_insert index newLine ls1)"
  let ?s2 = "s1\<lparr>data := Some \<lparr>lines = Some ?ls\<rparr>\<rparr>"
  have o: "onLines (\<lambda>ls. resequence (splice_insert index newLine ls)) s1 = Inr ?s2"
    using s1 by (simp add: onLines_lines)
  have "container ?s2 = Some ns" "the_lines ?s2 = Some ?ls" using s1 c by simp_all
  from render_wellFormed[OF this] obtain s' where
    "render ?s2 = Inr s'" "wellFormed s'" "the_lines s' = Some ?ls" by blast
  then show ?thesis
    using s1 o by (simp add: addLine_def andThen_def settled_def numbered_resequence)
qed

lemma deleteLine_wellFormed:
  assumes "wellFormed s"
  shows "\<exists>s'. deleteLine index s = Inr s' \<and> wellFormed s' \<and> settled s'"
proof -
  from sync_wellFormed[OF assms] obtain s1 ls1 where
    s1: "syncDataFromDOM s = Inr s1" "container s1 = container s" "the_lines s1 = Some ls1"
    by blast
  from assms obtain ns where c: "container s = Some ns" by (rule wellFormedE)
  let ?ls = "resequence (splice_delete index ls1)"
  let ?s2 = "s1\<lparr>data := Some \<lparr>lines = Some ?ls\<rparr>\<rparr>"
  let ?s3 = "?s2\<lparr>pendingDeleteIndex := None\<rparr>"
  have o: "onLines (\<lambda>ls. resequence (splice_delete index ls)) s1 = Inr ?s2"
    using s1 by (simp add: onLines_lines)
  have "container ?s3 = Some ns" "the_lines ?s3 = Some ?ls" using s1 c by simp_all
  from render_wellFormed[OF this] obtain s4 where
    s4: "render ?s3 = Inr s4" "wellFormed s4" "the_lines s4 = Some ?ls" by blast
  from updateJsonOutput_wellFormed[OF s4(2)] obtain s' where
    "updateJsonOutput s4 = Inr s'" "wellFormed s'" "the_lines s' = the_lines s4" by blast
  then show ?thesis
    using s1 o s4 by (simp add: deleteLine_def andThen_def settled_def numbered_resequence)
qed

lemma requestDelete_wellFormed:
  assumes "wellFormed s"
  shows "\<exists>s'. requestDelete index s = Inr s' \<and> wellFormed s' \<and> (settled s \<longrightarrow> settled s')"
proof -
  from sync_wellFormed[OF assms] obtain s1 ls1 where
    s1: "syncDataFromDOM s = Inr s1" "container s1 = container s" "the_lines s1 = Some ls1"
      "settled s \<longrightarrow> numbered ls1"
    by blast
  from assms obtain ns where c: "container s = Some ns" by (rule wellFormedE)
  let ?s2 = "s1\<lparr>pendingDeleteIndex := Some index\<rparr>"
  have "container ?s2 = Some ns" "the_lines ?s2 = Some ls1" using s1 c by simp_all
  from render_wellFormed[OF this] obtain s' where
    "render ?s2 = Inr s'" "wellFormed s'" "the_lines s' = Some ls1" by blast
  then show ?thesis
    using s1 by (simp add: requestDelete_def andThen_def settled_def)
qed

lemma cancelDelete_wellFormed:
  assumes "wellFormed s"
  shows "\<exists>s'. cancelDelete s = Inr s' \<and> wellFormed s' \<and> (settled s \<longrightarrow> settled s')"
proof -
  from sync_wellFormed[OF assms] obtain s1 ls1 where
    s1: "syncDataFromDOM s = Inr s1" "container s1 = container s" "the_lines s1 = Some ls1"
      "settled s \<longrightarrow> numbered ls1"
    by blast
  from assms obtain ns where c: "container s = Some ns" by (rule wellFormedE)
  let ?s2 = "s1\<lparr>pendingDeleteIndex := None\<rparr>"
  have "container ?s2 = Some ns" "the_lines ?s2 = Some ls1" using s1 c by simp_all
  from render_wellFormed[OF this] obtain s' where
    "render ?s2 = Inr s'" "wellFormed s'" "the_lines s' = Some ls1" by blast
  then show ?thesis
    using s1 by (simp add: cancelDelete_def andThen_def settled_def)
qed

lemma dragend_wellFormed:
  assumes "wellFormed s"
  shows "\<exists>s'. dragend s = Inr s' \<and> wellFormed s' \<and> settled s'"
proof -
  from assms obtain ns ls where c: "container s = Some ns" and rc: "rowsComplete ns"
    and l: "the_lines s = Some ls" by (rule wellFormedE)
  let ?ns = "mapRows (\<lambda>i r. uncheck (r\<lparr>dragging := False\<rparr>)) 0 ns"
  let ?ls = "collectLines 0 (queryRows ?ns)"
  let ?s2 = "s\<lparr>container := Some ?ns, data := Some \<lparr>lines = Some ?ls\<rparr>\<rparr>"
  have rc': "rowsComplete ?ns" using rc by (simp add: rowsComplete_mapRows)
  have n: "numbered ?ls" by (rule numbered_collectLines[OF rowsComplete_text[OF rc']])
  have "container ?s2 = Some ?ns" "the_lines ?s2 = Some ?ls" by simp_all
  from render_wellFormed[OF this] obtain s4 where
    s4: "render ?s2 = Inr s4" "wellFormed s4" "the_lines s4 = Some ?ls" by blast
  from updateJsonOutput_wellFormed[OF s4(2)] obtain s' where
    "updateJsonOutput s4 = Inr s'" "wellFormed s'" "the_lines s' = the_lines s4" by blast
  then show ?thesis
    using c l s4 n
    by (simp add: dragend_def andThen_def settled_def Let_def the_lines_SomeD document_update)
qed

lemma textEdit_wellFormed:
  assumes "wellFormed s"
  shows "\<exists>s'. textEdit k t s = Inr s' \<and> wellFormed s' \<and> the_lines s' = the_lines s"
proof -
  from assms obtain ns ls where c: "container s = Some ns" and rc: "rowsComplete ns"
    and l: "the_lines s = Some ls" by (rule wellFormedE)
  let ?ns = "mapRows (\<lambda>i r. if i = k then r\<lparr>colText := Some t\<rparr> else r) 0 ns"
  have "rowsComplete ?ns"
    using rc by (rule rowsComplete_mapRows) (simp add: rowComplete_def)
  then have "wellFormed (s\<lparr>container := Some ?ns\<rparr>)"
    using l by (simp add: wellFormed_def)
  from updateJsonOutput_wellFormed[OF this] assms c show ?thesis
    by (auto simp: textEdit_def)
qed

lemma step_wellFormed:
  assumes "wellFormed s"
  shows "\<exists>s'. step s e = Inr s' \<and> wellFormed s' \<and> (structural e \<or> settled s \<longrightarrow> settled s')"
proof -
  from assms obtain ns ls where c: "container s = Some ns" and rc: "rowsComplete ns"
    and l: "the_lines s = Some ls" by (rule wellFormedE)
  show ?thesis
  proof (cases e)
    case (AddLine i) with addLine_wellFormed[OF assms, of i] show ?thesis by auto
  next
    case (DeleteLine i) with deleteLine_wellFormed[OF assms, of i] show ?thesis by auto
  next
    case (RequestDelete i) with requestDelete_wellFormed[OF assms, of i] show ?thesis by auto
  next
    case CancelDelete with cancelDelete_wellFormed[OF assms] show ?thesis by auto
  next
    case Render with render_wellFormed[OF c l] l show ?thesis by (auto simp: settled_def)
  next
    case (TextEdit k t) with textEdit_wellFormed[OF assms, of k t] show ?thesis
      by (auto simp: settled_def)
  next
    case (Toggle k)
    with c l rowsComplete_toggle[OF rc, of k] show ?thesis
      by (simp add: onContainer_def andThen_def wellFormed_def settled_def)
  next
    case (DragStart k)
    with c l rowsComplete_dragstart[OF rc, of k] show ?thesis
      by (auto simp add: onContainer_def andThen_def wellFormed_def settled_def)
  next
    case (DragOver y rect)
    with c l rowsComplete_handleDragOver[OF rc, of y rect] show ?thesis
      by (simp add: onContainer_def andThen_def wellFormed_def settled_def)
  next
    case DragEnd with c dragend_wellFormed[OF assms] show ?thesis by auto
  qed
qed

lemma run_wellFormed:
  "wellFormed s \<Longrightarrow>
   \<exists>s'. run s evs = Inr s' \<and> wellFormed s' \<and>
        (settled s \<or> (\<exists>e \<in> set evs. structural e) \<longrightarrow> settled s')"
proof (induction evs arbitrary: s)
  case Nil
  then show ?case by simp
next
  case (Cons e evs)
  from step_wellFormed[OF Cons.prems, of e] obtain s1 where
    s1: "step s e = Inr s1" "wellFormed s1" "structural e \<or> settled s \<longrightarrow> settled s1" by blast
  from Cons.IH[OF s1(2)] obtain s' where
    "run s1 evs = Inr s'" "wellFormed s'"
    "settled s1 \<or> (\<exists>e \<in> set evs. structural e) \<longrightarrow> settled s'" by blast
  with s1 show ?case by auto
qed

section \<open>The marks after a toggle\<close>

text \<open>
  The marks after a \<^verbatim>\<open>change\<close> event, as a function of the marks before it, and the
  two forms of contiguity.
\<close>

lemma length_marks [simp]: "length (marks ns) = length (queryRows ns)"
  by (simp add: marks_def)

lemma length_queryRows_mapRows [simp]:
  "length (queryRows (mapRows f i ns)) = length (queryRows ns)"
  by (simp add: queryRows_mapRows)

lemma nth_queryRows_mapRows:
  "j < length (queryRows ns) \<Longrightarrow> queryRows (mapRows f 0 ns) ! j = f j (queryRows ns ! j)"
  by (simp add: queryRows_mapRows nth_enumerate_eq)

lemma marks_nth: "j < length (queryRows ns) \<Longrightarrow> marks ns ! j = isChecked (queryRows ns ! j)"
  by (simp add: marks_def)

lemma marks_flipCheckbox:
  assumes "k < length (queryRows ns)" "checkbox (queryRows ns ! k) = Some c"
  shows "marks (flipCheckbox k ns) = (marks ns)[k := \<not> c]"
  using assms
  by (auto simp add: list_eq_iff_nth_eq flipCheckbox_def marks_nth nth_queryRows_mapRows
      nth_list_update isChecked_def)

lemma length_flipCheckbox [simp]:
  "length (queryRows (flipCheckbox k ns)) = length (queryRows ns)"
  by (simp add: flipCheckbox_def)

lemma marks_handleToggle:
  assumes "k < length (queryRows ns)"
  shows "marks (handleToggle k ns) =
         (if marks ns ! k \<and> \<not> (k > 0 \<and> marks ns ! (k - 1)) \<and>
             \<not> (k + 1 < length (marks ns) \<and> marks ns ! (k + 1))
          then (replicate (length (marks ns)) False)[k := True]
          else marks ns)"
  using assms
  by (auto simp add: list_eq_iff_nth_eq handleToggle_def Let_def marks_nth nth_queryRows_mapRows
      nth_list_update isChecked_def uncheck_def)

lemma marks_toggle_off:
  assumes "k < length (queryRows ns)" "checkbox (queryRows ns ! k) = Some True"
  shows "marks (toggle k ns) = (marks ns)[k := False]"
proof -
  have m: "marks (flipCheckbox k ns) = (marks ns)[k := False]"
    using marks_flipCheckbox[OF assms] by simp
  have "marks (handleToggle k (flipCheckbox k ns)) = marks (flipCheckbox k ns)"
    using assms(1) by (simp add: marks_handleToggle m)
  with assms m show ?thesis by (simp add: toggle_def)
qed

lemma marks_toggle_on:
  assumes "k < length (queryRows ns)" "checkbox (queryRows ns ! k) = Some False"
  shows "marks (toggle k ns) =
         (if (k > 0 \<and> marks ns ! (k - 1)) \<or> (k + 1 < length (marks ns) \<and> marks ns ! (k + 1))
          then (marks ns)[k := True]
          else (replicate (length (marks ns)) False)[k := True])"
proof -
  have m: "marks (flipCheckbox k ns) = (marks ns)[k := True]"
    using marks_flipCheckbox[OF assms] by simp
  have "k < length (queryRows (flipCheckbox k ns))" using assms(1) by simp
  from marks_handleToggle[OF this] assms show ?thesis
    by (auto simp add: toggle_def m nth_list_update)
qed

lemma downClosed_Cons_True: "downClosed (True # bs) = downClosed bs"
proof
  assume d: "downClosed (True # bs)"
  show "downClosed bs"
    unfolding downClosed_def
  proof (intro allI impI)
    fix j m assume "m \<le> j \<and> j < length bs \<and> bs ! j"
    then have "Suc m \<le> Suc j \<and> Suc j < length (True # bs) \<and> (True # bs) ! Suc j" by simp
    with d have "(True # bs) ! Suc m" unfolding downClosed_def by blast
    then show "bs ! m" by simp
  qed
next
  assume d: "downClosed bs"
  show "downClosed (True # bs)"
    unfolding downClosed_def
  proof (intro allI impI)
    fix j m assume a: "m \<le> j \<and> j < length (True # bs) \<and> (True # bs) ! j"
    show "(True # bs) ! m"
    proof (cases m)
      case 0 then show ?thesis by simp
    next
      case (Suc m')
      with a obtain j' where j: "j = Suc j'" by (cases j) auto
      with a Suc have "m' \<le> j' \<and> j' < length bs \<and> bs ! j'" by simp
      with d have "bs ! m'" unfolding downClosed_def by blast
      with Suc show ?thesis by simp
    qed
  qed
qed

lemma downClosed_Cons_False: "downClosed (False # bs) = list_all Not bs"
proof
  assume d: "downClosed (False # bs)"
  show "list_all Not bs"
    unfolding list_all_length
  proof (intro allI impI)
    fix n assume n: "n < length bs"
    show "\<not> bs ! n"
    proof
      assume "bs ! n"
      with n have "0 \<le> Suc n \<and> Suc n < length (False # bs) \<and> (False # bs) ! Suc n" by simp
      with d have "(False # bs) ! 0" unfolding downClosed_def by blast
      then show False by simp
    qed
  qed
next
  assume a: "list_all Not bs"
  have "\<And>j. j < length (False # bs) \<Longrightarrow> \<not> (False # bs) ! j"
  proof -
    fix j assume "j < length (False # bs)"
    with a show "\<not> (False # bs) ! j"
      by (cases j) (simp_all add: list_all_length)
  qed
  then show "downClosed (False # bs)"
    unfolding downClosed_def by blast
qed

lemma downClosed_dropWhile: "list_all Not (dropWhile (\<lambda>b. b) bs) = downClosed bs"
proof (induction bs)
  case Nil
  then show ?case by (simp add: downClosed_def)
next
  case (Cons b bs)
  then show ?case
    by (cases b) (simp_all add: downClosed_Cons_True downClosed_Cons_False)
qed

lemma interval_Cons_False: "interval (False # bs) = interval bs"
proof
  assume d: "interval (False # bs)"
  show "interval bs"
    unfolding interval_def
  proof (intro allI impI)
    fix i j m assume "i \<le> m \<and> m \<le> j \<and> j < length bs \<and> bs ! i \<and> bs ! j"
    then have "Suc i \<le> Suc m \<and> Suc m \<le> Suc j \<and> Suc j < length (False # bs) \<and>
      (False # bs) ! Suc i \<and> (False # bs) ! Suc j" by simp
    with d have "(False # bs) ! Suc m" unfolding interval_def by blast
    then show "bs ! m" by simp
  qed
next
  assume d: "interval bs"
  show "interval (False # bs)"
    unfolding interval_def
  proof (intro allI impI)
    fix i j m
    assume a: "i \<le> m \<and> m \<le> j \<and> j < length (False # bs) \<and> (False # bs) ! i \<and> (False # bs) ! j"
    then obtain i' where i: "i = Suc i'" by (cases i) auto
    with a obtain m' where m: "m = Suc m'" by (cases m) auto
    with a obtain j' where j: "j = Suc j'" by (cases j) auto
    from a i m j have "i' \<le> m' \<and> m' \<le> j' \<and> j' < length bs \<and> bs ! i' \<and> bs ! j'" by simp
    with d have "bs ! m'" unfolding interval_def by blast
    with m show "(False # bs) ! m" by simp
  qed
qed

lemma interval_Cons_True: "interval (True # bs) = downClosed bs"
proof
  assume d: "interval (True # bs)"
  show "downClosed bs"
    unfolding downClosed_def
  proof (intro allI impI)
    fix j m assume "m \<le> j \<and> j < length bs \<and> bs ! j"
    then have "0 \<le> Suc m \<and> Suc m \<le> Suc j \<and> Suc j < length (True # bs) \<and>
      (True # bs) ! 0 \<and> (True # bs) ! Suc j" by simp
    with d have "(True # bs) ! Suc m" unfolding interval_def by blast
    then show "bs ! m" by simp
  qed
next
  assume d: "downClosed bs"
  then have d': "downClosed (True # bs)" by (simp add: downClosed_Cons_True)
  show "interval (True # bs)"
    unfolding interval_def
  proof (intro allI impI)
    fix i j m
    assume "i \<le> m \<and> m \<le> j \<and> j < length (True # bs) \<and> (True # bs) ! i \<and> (True # bs) ! j"
    then have "m \<le> j \<and> j < length (True # bs) \<and> (True # bs) ! j" by simp
    with d' show "(True # bs) ! m" unfolding downClosed_def by blast
  qed
qed

lemma contiguous_iff_interval: "contiguous bs = interval bs"
proof (induction bs)
  case Nil
  then show ?case by (simp add: contiguous_def interval_def)
next
  case (Cons b bs)
  show ?case
  proof (cases b)
    case True
    then show ?thesis
      by (simp add: contiguous_def interval_Cons_True downClosed_dropWhile)
  next
    case False
    with Cons show ?thesis
      by (simp add: contiguous_def interval_Cons_False)
  qed
qed

section \<open>Toggle-on events keep the marks an interval\<close>

lemma interval_single: "interval ((replicate n False)[k := True])"
proof -
  have "\<And>i. i < n \<Longrightarrow> (replicate n False)[k := True] ! i \<Longrightarrow> i = k"
  proof -
    fix i assume "i < n" "(replicate n False)[k := True] ! i"
    then show "i = k" by (cases "i = k") simp_all
  qed
  then have only: "\<And>i. i < n \<Longrightarrow> (replicate n False)[k := True] ! i \<Longrightarrow> i = k" .
  show ?thesis
    unfolding interval_def
  proof (intro allI impI)
    fix i j m
    assume a: "i \<le> m \<and> m \<le> j \<and> j < length ((replicate n False)[k := True]) \<and>
      (replicate n False)[k := True] ! i \<and> (replicate n False)[k := True] ! j"
    then have "j < n" "i < n" by simp_all
    with a only have "i = k" "j = k" by blast+
    with a have "m = k" by simp
    with a \<open>j = k\<close> show "(replicate n False)[k := True] ! m" by simp
  qed
qed

lemma interval_none: "list_all Not bs \<Longrightarrow> interval bs"
  unfolding interval_def list_all_length by blast

lemma interval_extend:
  assumes I: "interval bs" and k: "k < length bs"
    and adj: "(k > 0 \<and> bs ! (k - 1)) \<or> (k + 1 < length bs \<and> bs ! (k + 1))"
  shows "interval (bs[k := True])"
  unfolding interval_def
proof (intro allI impI)
  fix i j m
  assume a: "i \<le> m \<and> m \<le> j \<and> j < length (bs[k := True]) \<and> bs[k := True] ! i \<and> bs[k := True] ! j"
  show "bs[k := True] ! m"
  proof (cases "m = k")
    case True
    with k show ?thesis by simp
  next
    case False
    have "\<exists>a'. a' < length bs \<and> bs ! a' \<and> (a' = k - 1 \<or> a' = k + 1) \<and> a' \<noteq> k"
    proof (cases "k > 0 \<and> bs ! (k - 1)")
      case True
      with k show ?thesis by (intro exI[of _ "k - 1"]) auto
    next
      case False
      with adj show ?thesis by (intro exI[of _ "k + 1"]) auto
    qed
    then obtain a' where a': "a' < length bs" "bs ! a'" "a' = k - 1 \<or> a' = k + 1" "a' \<noteq> k"
      by blast
    have "\<exists>i'. i' \<le> m \<and> bs ! i'"
    proof (cases "i = k")
      case True
      with a False have "k < m" by simp
      with a' show ?thesis by (intro exI[of _ a']) auto
    next
      case False
      with a show ?thesis by (intro exI[of _ i]) (simp add: nth_list_update split: if_splits)
    qed
    then obtain i' where i': "i' \<le> m" "bs ! i'" by blast
    have "\<exists>j'. m \<le> j' \<and> j' < length bs \<and> bs ! j'"
    proof (cases "j = k")
      case True
      with a False have "m < k" by simp
      with a' show ?thesis by (intro exI[of _ a']) auto
    next
      case False
      with a show ?thesis by (intro exI[of _ j]) (simp add: nth_list_update split: if_splits)
    qed
    then obtain j' where j': "m \<le> j'" "j' < length bs" "bs ! j'" by blast
    from I i' j' have "bs ! m" unfolding interval_def by blast
    with False a show ?thesis by (simp add: nth_list_update)
  qed
qed

lemma interval_toggle_on:
  assumes "interval (marks ns)" "k < length (queryRows ns)"
    "checkbox (queryRows ns ! k) = Some False"
  shows "interval (marks (toggle k ns))"
proof (cases "(k > 0 \<and> marks ns ! (k - 1)) \<or> (k + 1 < length (marks ns) \<and> marks ns ! (k + 1))")
  case True
  have "marks (toggle k ns) = (marks ns)[k := True]"
    by (simp only: marks_toggle_on[OF assms(2,3)] if_P[OF True])
  moreover have "interval ((marks ns)[k := True])"
    using assms(1) _ True by (rule interval_extend) (simp add: assms(2))
  ultimately show ?thesis by simp
next
  case False
  have "marks (toggle k ns) = (replicate (length (marks ns)) False)[k := True]"
    by (simp only: marks_toggle_on[OF assms(2,3)] if_not_P[OF False])
  then show ?thesis by (simp add: interval_single)
qed

lemma interval_toggles:
  "toggleOnEvents ks ns \<Longrightarrow> interval (marks ns) \<Longrightarrow> interval (marks (toggles ks ns))"
proof (induction ks arbitrary: ns)
  case Nil
  then show ?case by (simp add: toggles_def)
next
  case (Cons k ks)
  from Cons.prems have k: "k < length (queryRows ns)" "checkbox (queryRows ns ! k) = Some False"
    and rest: "toggleOnEvents ks (toggle k ns)" by simp_all
  have "interval (marks (toggle k ns))"
    using Cons.prems(2) k by (rule interval_toggle_on)
  from Cons.IH[OF rest this] show ?case by (simp add: toggles_def)
qed

lemma marked_after_toggle_on:
  assumes "k < length (queryRows ns)" "checkbox (queryRows ns ! k) = Some False"
  shows "marks (toggle k ns) ! k"
  using marks_toggle_on[OF assms] assms(1) by (simp split: if_splits)

lemma length_queryRows_toggle [simp]: "length (queryRows (toggle k ns)) = length (queryRows ns)"
  by (simp add: toggle_def handleToggle_def Let_def)

lemma some_marked_toggles:
  "toggleOnEvents ks ns \<Longrightarrow> ks \<noteq> [] \<Longrightarrow> True \<in> set (marks (toggles ks ns))"
proof (induction ks arbitrary: ns)
  case Nil
  then show ?case by simp
next
  case (Cons k ks)
  from Cons.prems have k: "k < length (queryRows ns)" "checkbox (queryRows ns ! k) = Some False"
    and rest: "toggleOnEvents ks (toggle k ns)" by simp_all
  show ?case
  proof (cases "ks = []")
    case True
    have "marks (toggle k ns) ! k" using k by (rule marked_after_toggle_on)
    moreover have "k < length (marks (toggle k ns))" using k by simp
    ultimately have "True \<in> set (marks (toggle k ns))"
      unfolding in_set_conv_nth by blast
    with True show ?thesis by (simp add: toggles_def)
  next
    case False
    from Cons.IH[OF rest False] show ?thesis by (simp add: toggles_def)
  qed
qed

section \<open>The reduce of getDragAfterElement\<close>

text \<open>
  The accumulator of the \<^verbatim>\<open>reduce\<close> is the candidate with the greatest computed offset
  among the rows seen so far, the first of them on equal offsets; the rows are seen in
  increasing position.
\<close>

text \<open>
  The rounding on values whose doubles are known: \<^verbatim>\<open>0.1\<close>; \<^verbatim>\<open>0.1 + 0.2\<close>, which is
  \<^verbatim>\<open>0.30000000000000004\<close>; a tie, which goes to the even significand; and an integer.
\<close>

lemma fl_known_values:
  "fl (1 / 10) = Finite (3602879701896397 / 2 ^ 55)"
  "subtract (Finite (3602879701896397 / 2 ^ 54)) (Finite (- 3602879701896397 / 2 ^ 55)) =
     Finite (5404319552844596 / 2 ^ 54)"
  "fl (1 + 1 / 2 ^ 53) = Finite 1"
  "fl (1 + 3 / 2 ^ 53) = Finite (1 + 1 / 2 ^ 51)"
  "fl 41 = Finite 41"
  by code_simp+













section \<open>Operations on a document that the view shows\<close>

lemma resequence_Nil [simp]: "resequence [] = []"
  by (simp add: resequence_def)

lemma resequence_cong:
  "map line_text xs = map line_text ys \<Longrightarrow> resequence xs = resequence ys"
proof -
  assume a: "map line_text xs = map line_text ys"
  then have len: "length xs = length ys" by (rule map_eq_imp_length_eq)
  have "\<And>i. i < length xs \<Longrightarrow> line_text (xs ! i) = line_text (ys ! i)"
    using a len by (metis nth_map)
  with len show ?thesis
    by (simp add: resequence_def list_eq_iff_nth_eq nth_enumerate_eq)
qed

lemma resequence_idem [simp]: "resequence (resequence ls) = resequence ls"
  by (rule resequence_cong) (rule text_resequence)

lemma shownE:
  assumes "shown s ls"
  obtains ns where "container s = Some ns" "the_lines s = Some ls"
    "map colText (queryRows ns) = map (\<lambda>l. Some (line_text l)) ls"
  using assms by (auto simp: shown_def split: option.splits)

lemma sync_shown:
  assumes "shown s ls"
  shows "syncDataFromDOM s = Inr (s\<lparr>data := Some \<lparr>lines = Some (resequence ls)\<rparr>\<rparr>)"
proof -
  from assms obtain ns where c: "container s = Some ns" and l: "the_lines s = Some ls"
    and v: "map colText (queryRows ns) = map (\<lambda>l. Some (line_text l)) ls" by (rule shownE)
  have cl: "collectLines 0 (queryRows ns) = resequence ls"
    using v by (rule collectLines_resequence)
  have "resequence ls = [] \<longleftrightarrow> ls = []"
    using length_resequence[of ls] by (metis length_0_conv)
  with c l cl show ?thesis
    by (simp add: syncDataFromDOM_lines)
qed

lemma render_shown:
  assumes "container s = Some c" "the_lines s = Some ls"
  shows "\<exists>s'. render s = Inr s' \<and> shown s' ls \<and>
           pendingDeleteIndex s' = pendingDeleteIndex s \<and> console s' = console s \<and>
           outputArea s' = outputArea s \<and>
           container s' = Some (renderView (pendingDeleteIndex s) ls)"
  using assms by (simp add: render_lines shown_def colText_renderView)

lemma updateJsonOutput_shown:
  assumes "shown s ls"
  shows "\<exists>s'. updateJsonOutput s = Inr s' \<and> shown s' ls \<and>
           pendingDeleteIndex s' = pendingDeleteIndex s \<and> console s' = console s \<and>
           container s' = container s"
proof -
  from assms obtain ns where c: "container s = Some ns" by (rule shownE)
  from updateJsonOutput_ok[OF c] obtain out where "updateJsonOutput s = Inr (s\<lparr>outputArea := out\<rparr>)" ..
  with assms show ?thesis by (simp add: shown_def)
qed

lemma addLine_shown:
  assumes "shown s ls"
  shows "\<exists>s'. addLine index s = Inr s' \<and>
           shown s' (resequence (splice_insert index newLine (resequence ls))) \<and>
           console s' = console s \<and> pendingDeleteIndex s' = pendingDeleteIndex s"
proof -
  from assms obtain ns where c: "container s = Some ns" by (rule shownE)
  let ?s1 = "s\<lparr>data := Some \<lparr>lines = Some (resequence ls)\<rparr>\<rparr>"
  let ?ls = "resequence (splice_insert index newLine (resequence ls))"
  let ?s2 = "?s1\<lparr>data := Some \<lparr>lines = Some ?ls\<rparr>\<rparr>"
  have o: "onLines (\<lambda>ls. resequence (splice_insert index newLine ls)) ?s1 = Inr ?s2"
    by (simp add: onLines_lines)
  have "container ?s2 = Some ns" "the_lines ?s2 = Some ?ls" using c by simp_all
  from render_shown[OF this] obtain s' where
    "render ?s2 = Inr s'" "shown s' ?ls" "console s' = console ?s2"
    "pendingDeleteIndex s' = pendingDeleteIndex ?s2" by blast
  then show ?thesis
    using sync_shown[OF assms] o by (simp add: addLine_def andThen_def)
qed

lemma deleteLine_shown:
  assumes "shown s ls"
  shows "\<exists>s'. deleteLine index s = Inr s' \<and>
           shown s' (resequence (splice_delete index (resequence ls))) \<and>
           console s' = console s \<and> pendingDeleteIndex s' = None"
proof -
  from assms obtain ns where c: "container s = Some ns" by (rule shownE)
  let ?s1 = "s\<lparr>data := Some \<lparr>lines = Some (resequence ls)\<rparr>\<rparr>"
  let ?ls = "resequence (splice_delete index (resequence ls))"
  let ?s2 = "?s1\<lparr>data := Some \<lparr>lines = Some ?ls\<rparr>\<rparr>"
  let ?s3 = "?s2\<lparr>pendingDeleteIndex := None\<rparr>"
  have o: "onLines (\<lambda>ls. resequence (splice_delete index ls)) ?s1 = Inr ?s2"
    by (simp add: onLines_lines)
  have "container ?s3 = Some ns" "the_lines ?s3 = Some ?ls" using c by simp_all
  from render_shown[OF this] obtain s4 where
    s4: "render ?s3 = Inr s4" "shown s4 ?ls" "console s4 = console ?s3"
    "pendingDeleteIndex s4 = pendingDeleteIndex ?s3" by blast
  from updateJsonOutput_shown[OF s4(2)] obtain s' where
    "updateJsonOutput s4 = Inr s'" "shown s' ?ls" "console s' = console s4"
    "pendingDeleteIndex s' = pendingDeleteIndex s4" by blast
  then show ?thesis
    using sync_shown[OF assms] o s4 by (simp add: deleteLine_def andThen_def)
qed

lemma requestDelete_shown:
  assumes "shown s ls"
  shows "\<exists>s'. requestDelete index s = Inr s' \<and> shown s' (resequence ls) \<and>
           console s' = console s \<and> pendingDeleteIndex s' = Some index \<and>
           container s' = Some (renderView (Some index) (resequence ls))"
proof -
  from assms obtain ns where c: "container s = Some ns" by (rule shownE)
  let ?s1 = "s\<lparr>data := Some \<lparr>lines = Some (resequence ls)\<rparr>\<rparr>"
  let ?s2 = "?s1\<lparr>pendingDeleteIndex := Some index\<rparr>"
  have "container ?s2 = Some ns" "the_lines ?s2 = Some (resequence ls)" using c by simp_all
  from render_shown[OF this] obtain s' where
    "render ?s2 = Inr s'" "shown s' (resequence ls)" "console s' = console ?s2"
    "pendingDeleteIndex s' = pendingDeleteIndex ?s2"
    "container s' = Some (renderView (pendingDeleteIndex ?s2) (resequence ls))" by blast
  then show ?thesis
    using sync_shown[OF assms] by (simp add: requestDelete_def andThen_def)
qed

lemma cancelDelete_shown:
  assumes "shown s ls"
  shows "\<exists>s'. cancelDelete s = Inr s' \<and> shown s' (resequence ls) \<and>
           console s' = console s \<and> pendingDeleteIndex s' = None"
proof -
  from assms obtain ns where c: "container s = Some ns" by (rule shownE)
  let ?s1 = "s\<lparr>data := Some \<lparr>lines = Some (resequence ls)\<rparr>\<rparr>"
  let ?s2 = "?s1\<lparr>pendingDeleteIndex := None\<rparr>"
  have "container ?s2 = Some ns" "the_lines ?s2 = Some (resequence ls)" using c by simp_all
  from render_shown[OF this] obtain s' where
    "render ?s2 = Inr s'" "shown s' (resequence ls)" "console s' = console ?s2"
    "pendingDeleteIndex s' = pendingDeleteIndex ?s2" by blast
  then show ?thesis
    using sync_shown[OF assms] by (simp add: cancelDelete_def andThen_def)
qed

lemma map_splice_insert: "map f (splice_insert i x xs) = splice_insert i (f x) (map f xs)"
  by (simp add: splice_insert_def Let_def take_map drop_map)

lemma map_splice_delete: "map f (splice_delete i xs) = splice_delete i (map f xs)"
  by (simp add: splice_delete_def Let_def take_map drop_map)

lemma length_splice_insert [simp]: "length (splice_insert i x xs) = Suc (length xs)"
  by (simp add: splice_insert_def Let_def splice_start_def)

lemma splice_delete_insert:
  assumes "0 \<le> i" "i \<le> int (length xs)"
  shows "splice_delete i (splice_insert i x xs) = xs"
proof -
  let ?k = "nat i"
  from assms have k: "?k \<le> length xs" by simp
  from assms k have s1: "splice_start (length xs) i = ?k"
    by (simp add: splice_start_def)
  from assms k have s2: "splice_start (Suc (length xs)) i = ?k"
    by (simp add: splice_start_def)
  have ins: "splice_insert i x xs = take ?k xs @ x # drop ?k xs"
    by (simp add: splice_insert_def s1 Let_def)
  have len: "length (take ?k xs) = ?k" using k by simp
  have "splice_delete i (take ?k xs @ x # drop ?k xs) =
        take ?k (take ?k xs @ x # drop ?k xs) @ drop (Suc ?k) (take ?k xs @ x # drop ?k xs)"
    using k by (simp add: splice_delete_def s2 Let_def)
  also have "take ?k (take ?k xs @ x # drop ?k xs) = take ?k xs"
    using len by simp
  also have "drop (Suc ?k) (take ?k xs @ x # drop ?k xs) = drop ?k xs"
    using len by simp
  finally show ?thesis by (simp add: ins)
qed

lemma splice_delete_beyond:
  "int (length xs) \<le> i \<Longrightarrow> splice_delete i xs = xs"
  by (simp add: splice_delete_def Let_def splice_start_def min_def)

lemma splice_delete_negative:
  "i < 0 \<Longrightarrow> xs \<noteq> [] \<Longrightarrow> length (splice_delete i xs) = length xs - 1"
  by (cases xs) (auto simp add: splice_delete_def Let_def splice_start_def max_def)

lemma confirmButton_rendered:
  "confirmButton (map (\<lambda>(j, l). renderRow (Some i) j l) (enumerate n ls)) =
   (if int n \<le> i \<and> i < int (n + length ls) then Some (nat i) else None)"
  by (induction ls arbitrary: n) (auto simp: renderRow_def)

lemma splice_delete_Nil [simp]: "splice_delete i [] = []"
  by (simp add: splice_delete_def)

lemma roundtrip_texts:
  assumes "0 \<le> i" "i \<le> int (length ls)"
  shows "resequence (splice_delete i (resequence (splice_insert i newLine (resequence ls))))
         = resequence ls"
proof (rule resequence_cong)
  have "map line_text (splice_delete i (resequence (splice_insert i newLine (resequence ls))))
        = splice_delete i (splice_insert i (line_text newLine) (map line_text ls))"
    by (simp add: map_splice_delete map_splice_insert text_resequence)
  also have "\<dots> = map line_text ls"
    using assms by (simp add: splice_delete_insert)
  finally show "map line_text (splice_delete i (resequence (splice_insert i newLine (resequence ls))))
        = map line_text ls" .
qed

lemma text_collectLines:
  "map line_text (collectLines n rs) = map the (filter (\<lambda>t. t \<noteq> None) (map colText rs))"
  by (induction rs arbitrary: n) (auto split: option.split)

lemma collectLines_map_filter:
  "collectLines n rs =
   List.map_filter
     (\<lambda>(i, r). map_option (\<lambda>t. \<lparr>lineNumber = int i + 1, line_text = t\<rparr>) (colText r))
     (enumerate n rs)"
  by (induction rs arbitrary: n) (auto simp: map_filter_simps split: option.split)

lemma linesOf_render:
  "container s = Some c \<Longrightarrow> the_lines s = Some ls \<Longrightarrow> linesOf (render s) = Some ls"
  by (simp add: render_lines linesOf_def)

lemma linesOf_render_output:
  assumes "container s = Some c" "the_lines s = Some ls"
  shows "linesOf (andThen (render s) updateJsonOutput) = Some ls"
proof -
  let ?s' = "s\<lparr>container := Some (renderView (pendingDeleteIndex s) ls)\<rparr>"
  have r: "render s = Inr ?s'" using assms by (rule render_lines)
  have "container ?s' = Some (renderView (pendingDeleteIndex s) ls)" by simp
  from updateJsonOutput_ok[OF this] obtain out where
    "updateJsonOutput ?s' = Inr (?s'\<lparr>outputArea := out\<rparr>)" ..
  with r assms(2) show ?thesis by (simp add: andThen_def linesOf_def)
qed

lemma flush_inside_operations:
  assumes c: "container s = Some ns" and e: "collectLines 0 (queryRows ns) = []"
    and l: "the_lines s = Some old" and n: "old \<noteq> []"
  shows "linesOf (requestDelete i s) = Some old"
    and "linesOf (cancelDelete s) = Some old"
    and "linesOf (addLine i s) = Some (resequence (splice_insert i newLine old))"
    and "linesOf (deleteLine i s) = Some (resequence (splice_delete i old))"
proof -
  have f: "syncDataFromDOM s = Inr s" using c e l n by (simp add: syncDataFromDOM_lines)
  show "linesOf (requestDelete i s) = Some old"
    using c l by (simp add: requestDelete_def f andThen_def linesOf_render)
  show "linesOf (cancelDelete s) = Some old"
    using c l by (simp add: cancelDelete_def f andThen_def linesOf_render)
  show "linesOf (addLine i s) = Some (resequence (splice_insert i newLine old))"
    using c l by (simp add: addLine_def f andThen_def onLines_lines linesOf_render)
  show "linesOf (deleteLine i s) = Some (resequence (splice_delete i old))"
    using c l linesOf_render_output[of "s\<lparr>data := Some \<lparr>lines = Some (resequence (splice_delete i old))\<rparr>,
        pendingDeleteIndex := None\<rparr>" ns "resequence (splice_delete i old)"]
    by (simp add: deleteLine_def f andThen_def onLines_lines)
qed

section \<open>C1: line numbers after structural operations\<close>

text \<open>
  C1. Construct the component on any document \<^verbatim>\<open>{lines: ls}\<close> (whatever its input line
  numbers) and any container content, render it, and let any sequence of events follow:
  \<^verbatim>\<open>addLine\<close>, \<^verbatim>\<open>deleteLine\<close>, \<^verbatim>\<open>requestDelete\<close>, \<^verbatim>\<open>cancelDelete\<close>, \<^verbatim>\<open>render\<close>, text edits,
  checkbox toggles, drag start, drag over and drag end, with any indices, pointer
  positions and layouts. No handler throws, and as soon as one structural operation
  (\<^verbatim>\<open>addLine\<close>, \<^verbatim>\<open>deleteLine\<close>, or the rebuild at drag end) has run, the line list is
  numbered: \<^verbatim>\<open>lineNumber\<close> is position + 1 for every line, so the numbers are exactly
  \<open>1..N\<close>.
\<close>

theorem line_numbers_contiguous:
  "\<exists>s' ls'. run (TextArranger (Some \<lparr>lines = Some ls\<rparr>) (Some c0) out) (Render # evs) = Inr s' \<and>
        the_lines s' = Some ls' \<and>
        ((\<exists>e \<in> set evs. structural e) \<longrightarrow> numbered ls')"
proof -
  let ?s0 = "TextArranger (Some \<lparr>lines = Some ls\<rparr>) (Some c0) out"
  have "container ?s0 = Some c0" "the_lines ?s0 = Some ls"
    by (simp_all add: TextArranger_def the_lines_def)
  from render_wellFormed[OF this] obtain s1 where s1: "render ?s0 = Inr s1" "wellFormed s1"
    by blast
  from run_wellFormed[OF s1(2), of evs] obtain s' where
    s': "run s1 evs = Inr s'" "wellFormed s'" "(\<exists>e \<in> set evs. structural e) \<longrightarrow> settled s'"
    by blast
  from s'(2) obtain ls' where "the_lines s' = Some ls'" by (rule wellFormedE)
  with s1 s' show ?thesis by (auto simp: settled_def)
qed

theorem line_numbers_contiguous_witness:
  "(\<exists>e \<in> set [TextEdit 0 ''Q'', AddLine 1, DragStart 0, DragEnd, DeleteLine 5]. structural e) \<and>
   (\<exists>s' ls'.
      run (TextArranger (Some \<lparr>lines = Some [\<lparr>lineNumber = 7, line_text = ''A''\<rparr>,
                                             \<lparr>lineNumber = 7, line_text = ''B''\<rparr>]\<rparr>)
                        (Some []) None)
          (Render # [TextEdit 0 ''Q'', AddLine 1, DragStart 0, DragEnd, DeleteLine 5]) = Inr s' \<and>
      the_lines s' = Some ls' \<and> numbered ls')"
proof -
  have h: "\<exists>e \<in> set [TextEdit 0 ''Q'', AddLine 1, DragStart 0, DragEnd, DeleteLine 5]. structural e"
    by simp
  from line_numbers_contiguous[of "[\<lparr>lineNumber = 7, line_text = ''A''\<rparr>,
      \<lparr>lineNumber = 7, line_text = ''B''\<rparr>]" "[]" None
      "[TextEdit 0 ''Q'', AddLine 1, DragStart 0, DragEnd, DeleteLine 5]"] h
  show ?thesis by blast
qed

section \<open>C2: toggle-on events keep one contiguous run\<close>

text \<open>
  C2. From a view with no row marked, after any sequence of toggle-on events (each
  checks a box that is in the view and is unchecked), the marked rows form one
  contiguous run, and it is not empty when the sequence is not. For any selection,
  toggling on a row whose predecessor and successor are both unmarked (or absent)
  leaves exactly that row marked.
\<close>

theorem toggle_on_keeps_one_run:
  "(list_all Not (marks ns) \<and> toggleOnEvents ks ns \<longrightarrow>
      contiguous (marks (toggles ks ns)) \<and> (ks \<noteq> [] \<longrightarrow> True \<in> set (marks (toggles ks ns)))) \<and>
   (k < length (queryRows ns) \<and> checkbox (queryRows ns ! k) = Some False \<and>
    (k > 0 \<longrightarrow> \<not> marks ns ! (k - 1)) \<and>
    (k + 1 < length (queryRows ns) \<longrightarrow> \<not> marks ns ! (k + 1)) \<longrightarrow>
      marks (toggle k ns) = (replicate (length (queryRows ns)) False)[k := True])"
proof (intro conjI impI)
  assume a: "list_all Not (marks ns) \<and> toggleOnEvents ks ns"
  then have "interval (marks (toggles ks ns))"
    by (simp add: interval_toggles interval_none)
  then show "contiguous (marks (toggles ks ns))" by (simp add: contiguous_iff_interval)
  assume "ks \<noteq> []"
  with a show "True \<in> set (marks (toggles ks ns))" by (simp add: some_marked_toggles)
next
  assume a: "k < length (queryRows ns) \<and> checkbox (queryRows ns ! k) = Some False \<and>
    (k > 0 \<longrightarrow> \<not> marks ns ! (k - 1)) \<and>
    (k + 1 < length (queryRows ns) \<longrightarrow> \<not> marks ns ! (k + 1))"
  then have "\<not> ((k > 0 \<and> marks ns ! (k - 1)) \<or> (k + 1 < length (marks ns) \<and> marks ns ! (k + 1)))"
    by auto
  from if_not_P[OF this] marks_toggle_on[of k ns] a
  show "marks (toggle k ns) = (replicate (length (queryRows ns)) False)[k := True]"
    by (simp only: length_marks)
qed

theorem toggle_on_keeps_one_run_witness:
  "(list_all Not (marks view4) \<and> toggleOnEvents [2, 0] view4) \<and>
   contiguous (marks (toggles [2, 0] view4)) \<and>
   True \<in> set (marks (toggles [2, 0] view4)) \<and>
   (0 < length (queryRows (toggle 2 view4)) \<and>
    checkbox (queryRows (toggle 2 view4) ! 0) = Some False \<and>
    \<not> marks (toggle 2 view4) ! 1) \<and>
   marks (toggle 0 (toggle 2 view4)) = [True, False, False, False]"
proof -
  have h1: "list_all Not (marks view4) \<and> toggleOnEvents [2, 0] view4"
    by code_simp
  have h2: "0 < length (queryRows (toggle 2 view4)) \<and>
    checkbox (queryRows (toggle 2 view4) ! 0) = Some False \<and>
    \<not> marks (toggle 2 view4) ! 1"
    by code_simp
  have len: "length (queryRows (toggle 2 view4)) = 4"
    by code_simp
  from toggle_on_keeps_one_run[of view4 "[2, 0]" 0] h1
  have a: "contiguous (marks (toggles [2, 0] view4)) \<and> True \<in> set (marks (toggles [2, 0] view4))"
    by simp
  from toggle_on_keeps_one_run[of "toggle 2 view4" "[]" 0] h2 len
  have b: "marks (toggle 0 (toggle 2 view4)) = [True, False, False, False]"
    by (simp add: numeral_eq_Suc)
  from h1 h2 a b show ?thesis by blast
qed

section \<open>C3: toggling off inside a run\<close>

text \<open>
  C3. The claim is that toggle-off events cannot leave a marked set that is not one
  contiguous run. In the code a toggle-off returns from \<^verbatim>\<open>handleToggle\<close> at once: on a
  view of four rows, marking rows 1, 2 and 3 and then unmarking row 2 leaves rows 1 and
  3 marked, which is not one run, and a drag started on row 1 then drags rows 1 and 3.
\<close>

theorem toggle_off_splits_run:
  "marks (toggles [0, 1, 2] view4) = [True, True, True, False] \<and>
   marks (toggles [0, 1, 2, 1] view4) = [True, False, True, False] \<and>
   \<not> contiguous (marks (toggles [0, 1, 2, 1] view4)) \<and>
   map dragging
     (queryRows (case dragstart 0 (toggles [0, 1, 2, 1] view4) of Inl _ \<Rightarrow> [] | Inr ns \<Rightarrow> ns)) =
     [True, False, True, False]"
  by code_simp

section \<open>C4: the insertion anchor\<close>




section \<open>C5: insert, then delete at the same index\<close>

text \<open>
  C5 as stated fails on the numbering: for the document \<^verbatim>\<open>{lines:[{5,"A"}]}\<close>,
  \<^verbatim>\<open>addLine(0)\<close> then \<^verbatim>\<open>deleteLine(0)\<close> gives \<^verbatim>\<open>{lines:[{1,"A"}]}\<close>, not the document
  before the insert.
\<close>

theorem roundtrip_renumbers_counterexample:
  "linesOf (rendered doc_unnumbered) = Some [\<lparr>lineNumber = 5, line_text = ''A''\<rparr>] \<and>
   linesOf (andThen (andThen (rendered doc_unnumbered) (addLine 0)) (deleteLine 0)) =
     Some [\<lparr>lineNumber = 1, line_text = ''A''\<rparr>] \<and>
   linesOf (andThen (andThen (rendered doc_unnumbered) (addLine 0)) (deleteLine 0)) \<noteq>
     linesOf (rendered doc_unnumbered)"
  by code_simp

text \<open>
  C5, amended. For every document of \<open>N\<close> lines that the view shows, and every index
  \<open>0 \<le> i \<le> N\<close>, \<^verbatim>\<open>addLine(i)\<close> followed by \<^verbatim>\<open>deleteLine(i)\<close> throws nothing and
  returns the document to its texts in their order, numbered \<open>1..N\<close>; this is the
  document before the insert, line numbers included, whenever that document was
  numbered \<open>1..N\<close>.
\<close>

theorem insert_then_delete_roundtrip:
  assumes "shown s ls" "0 \<le> i" "i \<le> int (length ls)"
  shows "\<exists>s1 s2 ls'. addLine i s = Inr s1 \<and> deleteLine i s1 = Inr s2 \<and>
           the_lines s2 = Some ls' \<and> map line_text ls' = map line_text ls \<and> numbered ls' \<and>
           (numbered ls \<longrightarrow> ls' = ls)"
proof -
  let ?ls1 = "resequence (splice_insert i newLine (resequence ls))"
  from addLine_shown[OF assms(1), of i] obtain s1 where
    s1: "addLine i s = Inr s1" "shown s1 ?ls1" by blast
  from deleteLine_shown[OF s1(2), of i] obtain s2 where
    s2: "deleteLine i s1 = Inr s2" "shown s2 (resequence (splice_delete i (resequence ?ls1)))"
    by blast
  from s2(2) have "the_lines s2 = Some (resequence ls)"
    by (simp add: shown_def roundtrip_texts[OF assms(2,3)])
  with s1 s2 show ?thesis
    by (simp add: text_resequence numbered_resequence resequence_numbered)
qed

theorem insert_then_delete_roundtrip_witness:
  "shown (stateOf (rendered doc_ABC)) lines_ABC \<and>
   (0::int) \<le> 1 \<and> 1 \<le> int (length lines_ABC) \<and> numbered lines_ABC \<and>
   linesOf (andThen (addLine 1 (stateOf (rendered doc_ABC))) (deleteLine 1)) = Some lines_ABC"
proof -
  have h1: "shown (stateOf (rendered doc_ABC)) lines_ABC" by code_simp
  have h2: "(0::int) \<le> 1" "1 \<le> int (length lines_ABC)" by code_simp+
  have h3: "numbered lines_ABC" by code_simp
  from insert_then_delete_roundtrip[OF h1 h2] h3 obtain s1 s2 where
    "addLine 1 (stateOf (rendered doc_ABC)) = Inr s1" "deleteLine 1 s1 = Inr s2"
    "the_lines s2 = Some lines_ABC" by auto
  then have "linesOf (andThen (addLine 1 (stateOf (rendered doc_ABC))) (deleteLine 1)) = Some lines_ABC"
    by (simp add: andThen_def linesOf_def)
  with h1 h2 h3 show ?thesis by blast
qed

section \<open>C6: deleting at an index out of range\<close>

text \<open>
  C6 as stated fails for a negative index: \<^verbatim>\<open>splice\<close> counts it from the end, so on
  the document \<^verbatim>\<open>A, B, C\<close> the call \<^verbatim>\<open>deleteLine(-1)\<close> removes \<^verbatim>\<open>C\<close>.
\<close>

theorem deleteLine_negative_index_counterexample:
  "linesOf (rendered doc_ABC) = Some lines_ABC \<and>
   linesOf (andThen (rendered doc_ABC) (deleteLine (- 1))) =
     Some [\<lparr>lineNumber = 1, line_text = ''A''\<rparr>, \<lparr>lineNumber = 2, line_text = ''B''\<rparr>] \<and>
   linesOf (andThen (rendered doc_ABC) (deleteLine (- 1))) \<noteq> linesOf (rendered doc_ABC)"
  by code_simp

text \<open>
  C6, amended. For every document of \<open>N\<close> lines that the view shows and every index
  \<open>i\<close>, \<^verbatim>\<open>deleteLine(i)\<close> throws nothing, logs nothing, clears the pending delete and
  leaves the texts that \<^verbatim>\<open>splice(i, 1)\<close> leaves, numbered from 1. With \<open>N = 0\<close> or
  \<open>i \<ge> N\<close> no line is removed: texts and order are unchanged (and the line list
  itself, when it was numbered \<open>1..N\<close>). With \<open>i < 0\<close> and \<open>N > 0\<close> one line is
  removed. The method returns nothing: no failure is reported.
\<close>

theorem deleteLine_out_of_range:
  assumes "shown s ls"
  shows "\<exists>s' ls'. deleteLine i s = Inr s' \<and> the_lines s' = Some ls' \<and> numbered ls' \<and>
           console s' = console s \<and> pendingDeleteIndex s' = None \<and>
           map line_text ls' = splice_delete i (map line_text ls) \<and>
           (ls = [] \<or> int (length ls) \<le> i \<longrightarrow>
              map line_text ls' = map line_text ls \<and> (numbered ls \<longrightarrow> ls' = ls)) \<and>
           (i < 0 \<and> ls \<noteq> [] \<longrightarrow> length ls' = length ls - 1)"
proof -
  let ?ls' = "resequence (splice_delete i (resequence ls))"
  from deleteLine_shown[OF assms, of i] obtain s' where
    s': "deleteLine i s = Inr s'" "shown s' ?ls'" "console s' = console s"
      "pendingDeleteIndex s' = None" by blast
  then have l: "the_lines s' = Some ?ls'" by (simp add: shown_def)
  have a: "ls = [] \<or> int (length ls) \<le> i \<longrightarrow> ?ls' = resequence ls"
    by (auto simp: splice_delete_beyond)
  have b: "i < 0 \<and> ls \<noteq> [] \<longrightarrow> length ?ls' = length ls - 1"
  proof
    assume h: "i < 0 \<and> ls \<noteq> []"
    then have "resequence ls \<noteq> []" using length_resequence[of ls] by (metis length_0_conv)
    with h show "length ?ls' = length ls - 1"
      using splice_delete_negative[of i "resequence ls"] by simp
  qed
  have c: "map line_text ?ls' = splice_delete i (map line_text ls)"
    by (simp add: text_resequence map_splice_delete)
  from s' l a b c show ?thesis
    by (auto simp add: text_resequence numbered_resequence resequence_numbered)
qed

theorem deleteLine_out_of_range_witness:
  "shown (stateOf (rendered doc_ABC)) lines_ABC \<and>
   int (length lines_ABC) \<le> 3 \<and> numbered lines_ABC \<and>
   linesOf (deleteLine 3 (stateOf (rendered doc_ABC))) = Some lines_ABC \<and>
   ((- 1::int) < 0 \<and> lines_ABC \<noteq> []) \<and>
   map_option length (linesOf (deleteLine (- 1) (stateOf (rendered doc_ABC)))) = Some 2"
proof -
  have h1: "shown (stateOf (rendered doc_ABC)) lines_ABC" by code_simp
  have h2: "int (length lines_ABC) \<le> 3" by code_simp
  have h3: "numbered lines_ABC" by code_simp
  have h4: "(- 1::int) < 0 \<and> lines_ABC \<noteq> []" by code_simp
  have len: "length lines_ABC = 3" by code_simp
  from deleteLine_out_of_range[OF h1, of 3] h2 h3
  have a: "linesOf (deleteLine 3 (stateOf (rendered doc_ABC))) = Some lines_ABC"
    by (auto simp: linesOf_def)
  from deleteLine_out_of_range[OF h1, of "- 1"] h4 len
  have b: "map_option length (linesOf (deleteLine (- 1) (stateOf (rendered doc_ABC)))) = Some 2"
    by (auto simp: linesOf_def)
  from h1 h2 h3 h4 a b show ?thesis by blast
qed

section \<open>C7: the delete scenario\<close>

text \<open>
  C7 as stated fails: the index of \<^verbatim>\<open>requestDelete\<close> is the position of the row counted
  from 0, so on \<^verbatim>\<open>{lines:[{1,"A"},{2,"B"},{3,"C"}]}\<close> the request for index 2 puts the
  confirm button on the third row, and pressing it removes \<^verbatim>\<open>C\<close>, not \<^verbatim>\<open>B\<close>.
\<close>

theorem requestDelete_2_confirm_counterexample:
  "linesOf (andThen (andThen (rendered doc_ABC) (requestDelete 2)) confirm) \<noteq>
     Some [\<lparr>lineNumber = 1, line_text = ''A''\<rparr>, \<lparr>lineNumber = 2, line_text = ''C''\<rparr>]"
  by code_simp

text \<open>
  C7, amended. On that document, \<^verbatim>\<open>requestDelete(2)\<close> followed by the confirm button
  yields \<^verbatim>\<open>{lines:[{1,"A"},{2,"B"}]}\<close>; it is \<^verbatim>\<open>requestDelete(1)\<close> followed by the
  confirm button that yields \<^verbatim>\<open>{lines:[{1,"A"},{2,"C"}]}\<close>. Both leave no pending
  delete.
\<close>

theorem requestDelete_confirm_scenario:
  "linesOf (andThen (andThen (rendered doc_ABC) (requestDelete 2)) confirm) =
     Some [\<lparr>lineNumber = 1, line_text = ''A''\<rparr>, \<lparr>lineNumber = 2, line_text = ''B''\<rparr>] \<and>
   pendingOf (andThen (andThen (rendered doc_ABC) (requestDelete 2)) confirm) = Some None \<and>
   linesOf (andThen (andThen (rendered doc_ABC) (requestDelete 1)) confirm) =
     Some [\<lparr>lineNumber = 1, line_text = ''A''\<rparr>, \<lparr>lineNumber = 2, line_text = ''C''\<rparr>] \<and>
   pendingOf (andThen (andThen (rendered doc_ABC) (requestDelete 1)) confirm) = Some None"
  by code_simp

section \<open>C8: request, then cancel\<close>

text \<open>
  C8 as stated fails on the line numbers: \<^verbatim>\<open>requestDelete\<close> flushes the view into the
  model, and the flush numbers the lines from 1. For the document \<^verbatim>\<open>{lines:[{5,"A"}]}\<close>,
  \<^verbatim>\<open>requestDelete(0)\<close> then cancel leaves \<^verbatim>\<open>{lines:[{1,"A"}]}\<close>.
\<close>

theorem request_cancel_renumbers_counterexample:
  "linesOf (rendered doc_unnumbered) = Some [\<lparr>lineNumber = 5, line_text = ''A''\<rparr>] \<and>
   linesOf (andThen (andThen (rendered doc_unnumbered) (requestDelete 0)) cancel) =
     Some [\<lparr>lineNumber = 1, line_text = ''A''\<rparr>] \<and>
   linesOf (andThen (andThen (rendered doc_unnumbered) (requestDelete 0)) cancel) \<noteq>
     linesOf (rendered doc_unnumbered)"
  by code_simp

text \<open>
  C8, amended. For every document that the view shows and every index \<open>i\<close>,
  \<^verbatim>\<open>requestDelete(i)\<close> sets the pending delete to \<open>i\<close>, and \<^verbatim>\<open>cancelDelete()\<close> after it
  (which is what the cancel button runs; the button is in the view when
  \<open>0 \<le> i < N\<close>) throws nothing, leaves no pending delete and leaves the line list as
  \<^verbatim>\<open>requestDelete\<close> left it: the texts of the document in their order, numbered
  \<open>1..N\<close>. The line list is the one before the request whenever that one was numbered
  \<open>1..N\<close>.
\<close>

theorem request_then_cancel:
  assumes "shown s ls"
  shows "\<exists>s1 s2 ls'. requestDelete i s = Inr s1 \<and> pendingDeleteIndex s1 = Some i \<and>
           cancelDelete s1 = Inr s2 \<and>
           (0 \<le> i \<and> i < int (length ls) \<longrightarrow> cancel s1 = Inr s2) \<and>
           pendingDeleteIndex s2 = None \<and>
           the_lines s2 = the_lines s1 \<and> the_lines s2 = Some ls' \<and>
           map line_text ls' = map line_text ls \<and> numbered ls' \<and> (numbered ls \<longrightarrow> ls' = ls)"
proof -
  from requestDelete_shown[OF assms, of i] obtain s1 where
    s1: "requestDelete i s = Inr s1" "shown s1 (resequence ls)" "pendingDeleteIndex s1 = Some i"
      "container s1 = Some (renderView (Some i) (resequence ls))" by blast
  from cancelDelete_shown[OF s1(2)] obtain s2 where
    s2: "cancelDelete s1 = Inr s2" "shown s2 (resequence (resequence ls))"
      "pendingDeleteIndex s2 = None" by blast
  have btn: "0 \<le> i \<and> i < int (length ls) \<longrightarrow> cancel s1 = Inr s2"
  proof
    assume "0 \<le> i \<and> i < int (length ls)"
    then have "confirmButton (viewRows s1) = Some (nat i)"
      by (simp add: viewRows_def s1(4) queryRows_renderView confirmButton_rendered)
    with s2 show "cancel s1 = Inr s2" by (simp add: cancel_def)
  qed
  from s1(2) s2(2) have "the_lines s1 = Some (resequence ls)" "the_lines s2 = Some (resequence ls)"
    by (simp_all add: shown_def)
  with s1 s2 btn show ?thesis
    by (simp add: text_resequence numbered_resequence resequence_numbered)
qed

theorem request_then_cancel_witness:
  "shown (stateOf (rendered doc_ABC)) lines_ABC \<and>
   ((0::int) \<le> 1 \<and> 1 < int (length lines_ABC)) \<and> numbered lines_ABC \<and>
   linesOf (andThen (requestDelete 1 (stateOf (rendered doc_ABC))) cancel) = Some lines_ABC \<and>
   pendingOf (andThen (requestDelete 1 (stateOf (rendered doc_ABC))) cancel) = Some None"
proof -
  have h1: "shown (stateOf (rendered doc_ABC)) lines_ABC" by code_simp
  have h2: "(0::int) \<le> 1 \<and> 1 < int (length lines_ABC)" by code_simp
  have h3: "numbered lines_ABC" by code_simp
  from request_then_cancel[OF h1, of 1] h2 h3 obtain s1 s2 where
    "requestDelete 1 (stateOf (rendered doc_ABC)) = Inr s1" "cancel s1 = Inr s2"
    "the_lines s2 = Some lines_ABC" "pendingDeleteIndex s2 = None" by auto
  then have "linesOf (andThen (requestDelete 1 (stateOf (rendered doc_ABC))) cancel) = Some lines_ABC"
    "pendingOf (andThen (requestDelete 1 (stateOf (rendered doc_ABC))) cancel) = Some None"
    by (simp_all add: andThen_def linesOf_def pendingOf_def)
  with h1 h2 h3 show ?thesis by blast
qed

section \<open>C9: rendering without a document\<close>

text \<open>
  C9 as stated fails on the previous view: \<^verbatim>\<open>render\<close> empties the container before it
  checks the data. After a document of three lines was rendered and the data was then
  taken away, \<^verbatim>\<open>render\<close> leaves no row of the three.
\<close>

theorem render_invalid_clears_view_counterexample:
  "map colText (viewRows (stateOf (rendered doc_ABC))) = [Some ''A'', Some ''B'', Some ''C''] \<and>
   map colText (viewRows (stateOf (render ((stateOf (rendered doc_ABC))\<lparr>data := None\<rparr>)))) = [] \<and>
   container (stateOf (render ((stateOf (rendered doc_ABC))\<lparr>data := None\<rparr>))) \<noteq>
     container (stateOf (rendered doc_ABC))"
  by code_simp

text \<open>
  C9, amended. With a container present and the data absent or lacking its
  \<^verbatim>\<open>lines\<close> field, \<^verbatim>\<open>render\<close> logs \<^verbatim>\<open>Invalid data format\<close> and returns without
  rendering any row; the container is left empty, so the previously rendered view is
  cleared. Nothing else of the state changes.
\<close>

theorem render_invalid_data:
  "container s = Some ns \<and> the_lines s = None \<longrightarrow>
   render s = Inr (s\<lparr>container := Some [], console := console s @ [''Invalid data format'']\<rparr>)"
  by (auto simp: render_def the_lines_def split: option.splits)

theorem render_invalid_data_witness:
  "(container (TextArranger None (Some view4) None) = Some view4 \<and>
    the_lines (TextArranger None (Some view4) None) = None) \<and>
   render (TextArranger None (Some view4) None) =
     Inr \<lparr>data = None, container = Some [], outputArea = None, pendingDeleteIndex = None,
          console = [''Invalid data format'']\<rparr>"
proof -
  have h: "container (TextArranger None (Some view4) None) = Some view4 \<and>
    the_lines (TextArranger None (Some view4) None) = None"
    by (simp add: TextArranger_def the_lines_def)
  from render_invalid_data[of "TextArranger None (Some view4) None" view4] h
  have "render (TextArranger None (Some view4) None) =
     Inr ((TextArranger None (Some view4) None)
            \<lparr>container := Some [], console := console (TextArranger None (Some view4) None) @
               [''Invalid data format'']\<rparr>)"
    by blast
  with h show ?thesis by (simp add: TextArranger_def)
qed

section \<open>C10: the flush keeps a non-empty document\<close>

text \<open>
  C10. Without a container \<^verbatim>\<open>syncDataFromDOM\<close> returns the state as it is. With a
  container and a line list it never throws, whatever the rows lack, and it returns
  this state: the line list replaced by the lines collected from the view when at
  least one line was collected or the old list was empty, and the state unchanged
  otherwise. So when the view yields no row with an editable element and the line list
  is not empty, the state is unchanged, and a line list that was not empty is never
  empty after a flush that returns. The lines collected are, in the order of the rows,
  one line for each row that has an editable element, with the text of that element and
  the position of the row among all rows, plus one, as its number: a row without the
  element is passed over, and the rows before and after it are collected all the same.
  \<^verbatim>\<open>addLine\<close>, \<^verbatim>\<open>deleteLine\<close>, \<^verbatim>\<open>requestDelete\<close> and \<^verbatim>\<open>cancelDelete\<close> each start with this
  flush: on a view that yields no line over a line list that is not empty, the two
  prompts leave the line list as it was, and insert and delete work on it.
\<close>

theorem flush_keeps_nonempty_document:
  "(container s = None \<longrightarrow> syncDataFromDOM s = Inr s) \<and>
   (container s = Some ns \<and> the_lines s = Some old \<longrightarrow>
      syncDataFromDOM s =
        Inr (if collectLines 0 (queryRows ns) \<noteq> [] \<or> old = []
             then s\<lparr>data := Some \<lparr>lines = Some (collectLines 0 (queryRows ns))\<rparr>\<rparr>
             else s)) \<and>
   (container s = Some ns \<and> collectLines 0 (queryRows ns) = [] \<and>
    the_lines s = Some old \<and> old \<noteq> [] \<longrightarrow> syncDataFromDOM s = Inr s) \<and>
   (the_lines s = Some old \<and> old \<noteq> [] \<and> syncDataFromDOM s = Inr s' \<longrightarrow>
      the_lines s' \<noteq> Some []) \<and>
   (container s = Some ns \<and> collectLines 0 (queryRows ns) = [] \<and>
    the_lines s = Some old \<and> old \<noteq> [] \<longrightarrow>
      linesOf (requestDelete i s) = Some old \<and>
      linesOf (cancelDelete s) = Some old \<and>
      linesOf (addLine i s) = Some (resequence (splice_insert i newLine old)) \<and>
      linesOf (deleteLine i s) = Some (resequence (splice_delete i old))) \<and>
   collectLines n rs =
     List.map_filter
       (\<lambda>(i, r). map_option (\<lambda>t. \<lparr>lineNumber = int i + 1, line_text = t\<rparr>) (colText r))
       (enumerate n rs) \<and>
   map line_text (collectLines n rs) = map the (filter (\<lambda>t. t \<noteq> None) (map colText rs))"
proof (intro conjI impI)
  assume "container s = None"
  then show "syncDataFromDOM s = Inr s" by (simp add: syncDataFromDOM_def)
next
  assume "container s = Some ns \<and> the_lines s = Some old"
  then show "syncDataFromDOM s =
        Inr (if collectLines 0 (queryRows ns) \<noteq> [] \<or> old = []
             then s\<lparr>data := Some \<lparr>lines = Some (collectLines 0 (queryRows ns))\<rparr>\<rparr>
             else s)"
    using syncDataFromDOM_lines[of s ns old] by blast
next
  assume "container s = Some ns \<and> collectLines 0 (queryRows ns) = [] \<and>
    the_lines s = Some old \<and> old \<noteq> []"
  then show "syncDataFromDOM s = Inr s" by (simp add: syncDataFromDOM_lines)
next
  assume a: "the_lines s = Some old \<and> old \<noteq> [] \<and> syncDataFromDOM s = Inr s'"
  show "the_lines s' \<noteq> Some []"
  proof (cases "container s")
    case None
    with a show ?thesis by (auto simp add: syncDataFromDOM_def)
  next
    case (Some ns)
    with a have "Inr s' = Inr (if collectLines 0 (queryRows ns) \<noteq> [] \<or> old = []
        then s\<lparr>data := Some \<lparr>lines = Some (collectLines 0 (queryRows ns))\<rparr>\<rparr> else s)"
      using syncDataFromDOM_lines[of s ns old] by simp
    with a show ?thesis by (auto split: if_splits)
  qed
next
  assume a: "container s = Some ns \<and> collectLines 0 (queryRows ns) = [] \<and>
    the_lines s = Some old \<and> old \<noteq> []"
  then show "linesOf (requestDelete i s) = Some old"
    by (simp add: flush_inside_operations)
  from a show "linesOf (cancelDelete s) = Some old"
    by (simp add: flush_inside_operations)
  from a show "linesOf (addLine i s) = Some (resequence (splice_insert i newLine old))"
    by (simp add: flush_inside_operations)
  from a show "linesOf (deleteLine i s) = Some (resequence (splice_delete i old))"
    by (simp add: flush_inside_operations)
next
  show "collectLines n rs =
     List.map_filter
       (\<lambda>(i, r). map_option (\<lambda>t. \<lparr>lineNumber = int i + 1, line_text = t\<rparr>) (colText r))
       (enumerate n rs)"
    by (rule collectLines_map_filter)
next
  show "map line_text (collectLines n rs) = map the (filter (\<lambda>t. t \<noteq> None) (map colText rs))"
    by (rule text_collectLines)
qed

theorem flush_keeps_nonempty_document_witness:
  "(container arranger_stale = Some (the (container arranger_stale)) \<and>
    collectLines 0 (queryRows (the (container arranger_stale))) = [] \<and>
    the_lines arranger_stale = Some lines_ABC \<and> lines_ABC \<noteq> []) \<and>
   syncDataFromDOM arranger_stale = Inr arranger_stale \<and>
   (container arranger_mixed = Some (the (container arranger_mixed)) \<and>
    the_lines arranger_mixed = Some lines_ABC) \<and>
   linesOf (syncDataFromDOM arranger_mixed) =
     Some [\<lparr>lineNumber = 1, line_text = ''Q''\<rparr>, \<lparr>lineNumber = 3, line_text = ''R''\<rparr>]"
proof -
  have h: "container arranger_stale = Some (the (container arranger_stale)) \<and>
    collectLines 0 (queryRows (the (container arranger_stale))) = [] \<and>
    the_lines arranger_stale = Some lines_ABC \<and> lines_ABC \<noteq> []"
    by code_simp
  from flush_keeps_nonempty_document[where s = arranger_stale
      and ns = "the (container arranger_stale)" and old = lines_ABC] h
  have a: "syncDataFromDOM arranger_stale = Inr arranger_stale" by blast
  have g: "container arranger_mixed = Some (the (container arranger_mixed)) \<and>
    the_lines arranger_mixed = Some lines_ABC"
    by code_simp
  have c: "collectLines 0 (queryRows (the (container arranger_mixed))) =
     [\<lparr>lineNumber = 1, line_text = ''Q''\<rparr>, \<lparr>lineNumber = 3, line_text = ''R''\<rparr>]"
    by code_simp
  from flush_keeps_nonempty_document[where s = arranger_mixed
      and ns = "the (container arranger_mixed)" and old = lines_ABC] g
  have "syncDataFromDOM arranger_mixed =
        Inr (if collectLines 0 (queryRows (the (container arranger_mixed))) \<noteq> [] \<or> lines_ABC = []
             then arranger_mixed\<lparr>data := Some \<lparr>lines = Some (collectLines 0
                    (queryRows (the (container arranger_mixed))))\<rparr>\<rparr>
             else arranger_mixed)"
    by blast
  then have b: "linesOf (syncDataFromDOM arranger_mixed) =
     Some [\<lparr>lineNumber = 1, line_text = ''Q''\<rparr>, \<lparr>lineNumber = 3, line_text = ''R''\<rparr>]"
    by (simp add: c linesOf_def)
  from h a g b show ?thesis by blast
qed

end
